theory Spec2Isabelle
  imports Complex_Main "HOL-Library.Word" "HOL-Library.Char_ord" "HOL-Library.List_Lexorder"
begin

unbundle bit_operations_syntax

section \<open>Data model and operations\<close>

subsection \<open>SPSC ring buffer (include/md/spsc_queue.hpp)\<close>

text \<open>
  \<^verbatim>\<open>SPSCQueue<T, N>\<close> keeps two \<^verbatim>\<open>size_t\<close> indices and an array of \<open>N\<close> slots.
  The indices are 64-bit unsigned integers that are only ever incremented, so they are
  modelled as \<open>64 word\<close> and their wrap-around is part of the model.  The template
  parameter \<open>N\<close> is a parameter of every operation; \<open>valid_size\<close> is the conjunction
  of the two \<^verbatim>\<open>static_assert\<close>s on it.  The operations are modelled as executed by one
  thread, one call after the other; the memory orders of the atomics play no role then.
\<close>

type_synonym size_t = "64 word"

record 'a SPSCQueue =
  q_head :: size_t
  q_tail :: size_t
  q_buffer :: "'a list"

definition valid_size :: "size_t \<Rightarrow> bool" where
  "valid_size N \<longleftrightarrow> (N AND (N - 1)) = 0 \<and> 2 \<le> N"

definition MASK :: "size_t \<Rightarrow> size_t" where
  "MASK N = N - 1"


text \<open>
  The default constructor value-initialises both indices; the slots hold default-constructed
  elements, written \<open>dflt\<close>.
\<close>

definition SPSCQueue_new :: "size_t \<Rightarrow> 'a \<Rightarrow> 'a SPSCQueue" where
  "SPSCQueue_new N dflt = \<lparr>q_head = 0, q_tail = 0, q_buffer = replicate (unat N) dflt\<rparr>"

text \<open>
  \<^verbatim>\<open>push(const T&)\<close> and \<^verbatim>\<open>push(T&&)\<close> have the same body up to the move of the
  argument, which does not touch the queue; one definition models both.
\<close>

definition push :: "size_t \<Rightarrow> 'a SPSCQueue \<Rightarrow> 'a \<Rightarrow> bool \<times> 'a SPSCQueue" where
  "push N q item =
     (let head = q_head q;
          tail = q_tail q;
          next_head = head + 1
      in if (next_head AND MASK N) = (tail AND MASK N) then (False, q)
         else (True, q\<lparr>q_buffer := (q_buffer q)[unat (head AND MASK N) := item],
                        q_head := next_head\<rparr>))"

text \<open>
  \<^verbatim>\<open>pop(T& item)\<close> returns \<^verbatim>\<open>false\<close> and leaves \<open>item\<close> alone on an empty queue
  (\<open>None\<close>); otherwise it move-assigns the slot to \<open>item\<close> (\<open>Some\<close>) and advances
  the tail.  What a moved-from \<open>T\<close> looks like depends on \<open>T\<close> (unchanged for \<^verbatim>\<open>int\<close>
  or \<^verbatim>\<open>Tick\<close>, null for \<^verbatim>\<open>unique_ptr\<close>), so it is the parameter \<open>moved_from\<close>.
\<close>

definition pop :: "('a \<Rightarrow> 'a) \<Rightarrow> size_t \<Rightarrow> 'a SPSCQueue \<Rightarrow> 'a option \<times> 'a SPSCQueue" where
  "pop moved_from N q =
     (let tail = q_tail q;
          head = q_head q
      in if (tail AND MASK N) = (head AND MASK N) then (None, q)
         else (let item = q_buffer q ! unat (tail AND MASK N)
               in (Some item,
                   q\<lparr>q_buffer := (q_buffer q)[unat (tail AND MASK N) := moved_from item],
                     q_tail := tail + 1\<rparr>)))"

definition size_q :: "size_t \<Rightarrow> 'a SPSCQueue \<Rightarrow> size_t" where
  "size_q N q = (q_head q - q_tail q) AND MASK N"

definition empty_q :: "'a SPSCQueue \<Rightarrow> bool" where
  "empty_q q \<longleftrightarrow> q_head q = q_tail q"


text \<open>A sequential client: any sequence of \<^verbatim>\<open>push\<close> and \<^verbatim>\<open>pop\<close> calls, with the results it sees.\<close>

datatype 'a queue_call = Push 'a | Pop

datatype 'a queue_result = PushResult bool | PopResult "'a option"

fun run_queue ::
  "('a \<Rightarrow> 'a) \<Rightarrow> size_t \<Rightarrow> 'a SPSCQueue \<Rightarrow> 'a queue_call list \<Rightarrow> 'a queue_result list \<times> 'a SPSCQueue"
where
  "run_queue mf N q [] = ([], q)"
| "run_queue mf N q (Push v # cs) =
     (case push N q v of (ok, q') \<Rightarrow>
        (case run_queue mf N q' cs of (rs, q'') \<Rightarrow> (PushResult ok # rs, q'')))"
| "run_queue mf N q (Pop # cs) =
     (case pop mf N q of (r, q') \<Rightarrow>
        (case run_queue mf N q' cs of (rs, q'') \<Rightarrow> (PopResult r # rs, q'')))"

text \<open>The values of the \<^verbatim>\<open>push\<close> calls that returned \<^verbatim>\<open>true\<close>, and the values handed out by
  the \<^verbatim>\<open>pop\<close> calls that returned \<^verbatim>\<open>true\<close>, each in call order.\<close>

fun pushed_values :: "'a queue_call list \<Rightarrow> 'a queue_result list \<Rightarrow> 'a list" where
  "pushed_values (Push v # cs) (PushResult True # rs) = v # pushed_values cs rs"
| "pushed_values (c # cs) (r # rs) = pushed_values cs rs"
| "pushed_values _ _ = []"

fun popped_values :: "'a queue_result list \<Rightarrow> 'a list" where
  "popped_values [] = []"
| "popped_values (PopResult (Some v) # rs) = v # popped_values rs"
| "popped_values (r # rs) = popped_values rs"


text \<open>
  The specification's view of the queue, for comparison with the code: a bounded FIFO list
  (oldest element first) that accepts a push while it holds fewer than \<open>cap\<close> elements.
\<close>

fun fifo_spec :: "nat \<Rightarrow> 'a list \<Rightarrow> 'a queue_call list \<Rightarrow> 'a queue_result list \<times> 'a list" where
  "fifo_spec cap xs [] = ([], xs)"
| "fifo_spec cap xs (Push v # cs) =
     (if length xs < cap
      then (case fifo_spec cap (xs @ [v]) cs of (rs, ys) \<Rightarrow> (PushResult True # rs, ys))
      else (case fifo_spec cap xs cs of (rs, ys) \<Rightarrow> (PushResult False # rs, ys)))"
| "fifo_spec cap xs (Pop # cs) =
     (case xs of
        [] \<Rightarrow> (case fifo_spec cap [] cs of (rs, ys) \<Rightarrow> (PopResult None # rs, ys))
      | y # xs' \<Rightarrow> (case fifo_spec cap xs' cs of (rs, ys) \<Rightarrow> (PopResult (Some y) # rs, ys)))"

text \<open>
  The abstraction relation between the ring buffer and the FIFO list: the live slots are
  the \<open>length xs\<close> slots from the tail on, modulo \<open>N\<close>.
\<close>

definition holds :: "size_t \<Rightarrow> 'a SPSCQueue \<Rightarrow> 'a list \<Rightarrow> bool" where
  "holds N q xs \<longleftrightarrow>
     length (q_buffer q) = unat N \<and> length xs < unat N \<and>
     q_head q = q_tail q + of_nat (length xs) \<and>
     (\<forall>i<length xs. q_buffer q ! ((unat (q_tail q) + i) mod unat N) = xs ! i)"

subsection \<open>Time (std::chrono::steady_clock)\<close>

text \<open>
  A \<^verbatim>\<open>steady_clock::time_point\<close> is modelled as the integer count of clock ticks
  (nanoseconds) since the clock's epoch.  The clock is an input of the program: it is
  modelled as the sequence of the readings still to come, and each call of
  \<^verbatim>\<open>steady_clock::now()\<close> takes the first one.
\<close>

type_synonym time_point = int

type_synonym clock = "nat \<Rightarrow> time_point"

definition steady_clock_now :: "clock \<Rightarrow> time_point \<times> clock" where
  "steady_clock_now clk = (clk 0, \<lambda>n. clk (Suc n))"

text \<open>
  \<^verbatim>\<open>duration_cast<microseconds>(d).count()\<close> divides the nanosecond count by 1000 and
  truncates towards zero.
\<close>

definition duration_cast_microseconds :: "int \<Rightarrow> int" where
  "duration_cast_microseconds d = sgn d * (\<bar>d\<bar> div 1000)"

subsection \<open>Online estimators (include/stats/rolling_stats.hpp, rolling_covar.hpp)\<close>

text \<open>
  The estimators compute in \<^verbatim>\<open>double\<close>.  They are modelled over the reals, that is, under
  exact arithmetic: rounding, overflow to infinity and NaN are outside the model.  The
  observation counters are \<^verbatim>\<open>std::size_t\<close>, modelled as \<open>64 word\<close>;
  \<open>to_double\<close> is \<^verbatim>\<open>static_cast<double>\<close> on such a counter.
\<close>

definition to_double :: "size_t \<Rightarrow> real" where
  "to_double c = real (unat c)"

text \<open>\<^verbatim>\<open>class RollingStats\<close>: Welford's running mean and sum of squared deviations.\<close>

record RollingStats =
  rs_mean :: real
  rs_m2 :: real
  rs_count :: size_t

definition RollingStats_new :: RollingStats where
  "RollingStats_new = \<lparr>rs_mean = 0, rs_m2 = 0, rs_count = 0\<rparr>"

definition RollingStats_add :: "RollingStats \<Rightarrow> real \<Rightarrow> RollingStats" where
  "RollingStats_add s v =
     (let count = rs_count s + 1;
          delta = v - rs_mean s;
          mean = rs_mean s + delta / to_double count;
          delta2 = v - mean;
          m2 = rs_m2 s + delta * delta2
      in \<lparr>rs_mean = mean, rs_m2 = m2, rs_count = count\<rparr>)"

definition RollingStats_reset :: "RollingStats \<Rightarrow> RollingStats" where
  "RollingStats_reset s = \<lparr>rs_mean = 0, rs_m2 = 0, rs_count = 0\<rparr>"

definition RollingStats_mean :: "RollingStats \<Rightarrow> real" where
  "RollingStats_mean s = rs_mean s"

definition RollingStats_count :: "RollingStats \<Rightarrow> size_t" where
  "RollingStats_count s = rs_count s"

definition RollingStats_variance :: "RollingStats \<Rightarrow> real" where
  "RollingStats_variance s =
     (if rs_count s > 1 then rs_m2 s / to_double (rs_count s - 1) else 0)"

text \<open>
  \<^verbatim>\<open>std::sqrt\<close> of a negative number is NaN; \<open>sqrt\<close> on the reals is not.  The variance
  of a state built by \<open>RollingStats_add\<close> is never negative (lemma \<open>variance_nonneg\<close>
  below), so the two agree on all states the claims are about.
\<close>

definition RollingStats_std_dev :: "RollingStats \<Rightarrow> real" where
  "RollingStats_std_dev s = sqrt (RollingStats_variance s)"

definition RollingStats_cv :: "RollingStats \<Rightarrow> real" where
  "RollingStats_cv s =
     (if rs_mean s \<noteq> 0 then RollingStats_std_dev s / \<bar>rs_mean s\<bar> else 0)"

definition RollingStats_z_score :: "RollingStats \<Rightarrow> real \<Rightarrow> real" where
  "RollingStats_z_score s v =
     (let sd = RollingStats_std_dev s
      in if sd > 0 then (v - rs_mean s) / sd else 0)"


definition RollingStats_population_variance :: "RollingStats \<Rightarrow> real" where
  "RollingStats_population_variance s =
     (if rs_count s > 0 then rs_m2 s / to_double (rs_count s) else 0)"

text \<open>\<^verbatim>\<open>class EMAStats\<close>: exponentially weighted mean and variance.\<close>

record EMAStats =
  ema_alpha :: real
  ema_mean :: real
  ema_var :: real
  ema_initialized :: bool

definition EMAStats_of_window :: "size_t \<Rightarrow> EMAStats" where
  "EMAStats_of_window window =
     \<lparr>ema_alpha = 2 / (to_double window + 1), ema_mean = 0, ema_var = 0,
      ema_initialized = False\<rparr>"

definition EMAStats_add :: "EMAStats \<Rightarrow> real \<Rightarrow> EMAStats" where
  "EMAStats_add s v =
     (if \<not> ema_initialized s
      then s\<lparr>ema_mean := v, ema_var := 0, ema_initialized := True\<rparr>
      else (let delta = v - ema_mean s
            in s\<lparr>ema_mean := ema_mean s + ema_alpha s * delta,
                 ema_var := (1 - ema_alpha s) * (ema_var s + ema_alpha s * delta * delta)\<rparr>))"

definition EMAStats_reset :: "EMAStats \<Rightarrow> EMAStats" where
  "EMAStats_reset s = s\<lparr>ema_mean := 0, ema_var := 0, ema_initialized := False\<rparr>"

definition EMAStats_mean :: "EMAStats \<Rightarrow> real" where
  "EMAStats_mean s = ema_mean s"

definition EMAStats_std_dev :: "EMAStats \<Rightarrow> real" where
  "EMAStats_std_dev s = sqrt (ema_var s)"

definition EMAStats_is_initialized :: "EMAStats \<Rightarrow> bool" where
  "EMAStats_is_initialized s = ema_initialized s"

text \<open>\<^verbatim>\<open>class RollingCovar\<close>: the bivariate comoment update.\<close>

record RollingCovar =
  rc_mean_x :: real
  rc_mean_y :: real
  rc_c :: real
  rc_m2_x :: real
  rc_m2_y :: real
  rc_count :: size_t

definition RollingCovar_new :: RollingCovar where
  "RollingCovar_new =
     \<lparr>rc_mean_x = 0, rc_mean_y = 0, rc_c = 0, rc_m2_x = 0, rc_m2_y = 0, rc_count = 0\<rparr>"

definition RollingCovar_add :: "RollingCovar \<Rightarrow> real \<Rightarrow> real \<Rightarrow> RollingCovar" where
  "RollingCovar_add s x y =
     (let count = rc_count s + 1;
          n = to_double count;
          dx = x - rc_mean_x s;
          dy = y - rc_mean_y s;
          mean_x = rc_mean_x s + dx / n;
          mean_y = rc_mean_y s + dy / n;
          c = rc_c s + dx * (y - mean_y);
          m2_x = rc_m2_x s + dx * (x - mean_x);
          m2_y = rc_m2_y s + dy * (y - mean_y)
      in \<lparr>rc_mean_x = mean_x, rc_mean_y = mean_y, rc_c = c, rc_m2_x = m2_x, rc_m2_y = m2_y,
          rc_count = count\<rparr>)"

definition RollingCovar_reset :: "RollingCovar \<Rightarrow> RollingCovar" where
  "RollingCovar_reset s =
     \<lparr>rc_mean_x = 0, rc_mean_y = 0, rc_c = 0, rc_m2_x = 0, rc_m2_y = 0, rc_count = 0\<rparr>"

definition RollingCovar_mean_x :: "RollingCovar \<Rightarrow> real" where
  "RollingCovar_mean_x s = rc_mean_x s"

definition RollingCovar_mean_y :: "RollingCovar \<Rightarrow> real" where
  "RollingCovar_mean_y s = rc_mean_y s"

definition RollingCovar_count :: "RollingCovar \<Rightarrow> size_t" where
  "RollingCovar_count s = rc_count s"

definition RollingCovar_covariance :: "RollingCovar \<Rightarrow> real" where
  "RollingCovar_covariance s =
     (if rc_count s > 1 then rc_c s / to_double (rc_count s - 1) else 0)"

definition RollingCovar_variance_x :: "RollingCovar \<Rightarrow> real" where
  "RollingCovar_variance_x s =
     (if rc_count s > 1 then rc_m2_x s / to_double (rc_count s - 1) else 0)"

definition RollingCovar_variance_y :: "RollingCovar \<Rightarrow> real" where
  "RollingCovar_variance_y s =
     (if rc_count s > 1 then rc_m2_y s / to_double (rc_count s - 1) else 0)"

text \<open>
  \<^verbatim>\<open>correlation()\<close> under exact arithmetic, where the product of two positive variances is
  positive.  In binary64 that product can underflow to zero; \<open>RollingCovar_correlation_binary64\<close>
  below is the same accessor with the machine's rounding.
\<close>

definition RollingCovar_correlation :: "RollingCovar \<Rightarrow> real" where
  "RollingCovar_correlation s =
     (let var_x = RollingCovar_variance_x s;
          var_y = RollingCovar_variance_y s
      in if var_x \<le> 0 \<or> var_y \<le> 0 then 0
         else RollingCovar_covariance s / sqrt (var_x * var_y))"

definition RollingCovar_beta :: "RollingCovar \<Rightarrow> real" where
  "RollingCovar_beta s =
     (let var_x = RollingCovar_variance_x s
      in if var_x > 0 then RollingCovar_covariance s / var_x else 0)"

text \<open>Feeding a list of pairs to a fresh \<^verbatim>\<open>RollingCovar\<close>, one \<^verbatim>\<open>add\<close> per pair.\<close>

definition covar_of :: "(real \<times> real) list \<Rightarrow> RollingCovar" where
  "covar_of ps = foldl (\<lambda>s (x, y). RollingCovar_add s x y) RollingCovar_new ps"

text \<open>The sum of squares of a list, used to state the direct variance formula.\<close>

definition sum_sq :: "real list \<Rightarrow> real" where
  "sum_sq xs = (\<Sum>x\<leftarrow>xs. x\<^sup>2)"

subsection \<open>Signal rules (include/engine/signal_rules.hpp)\<close>

text \<open>
  \<^verbatim>\<open>evaluate(double& signal_strength)\<close> returns a \<^verbatim>\<open>bool\<close> and writes the strength
  through the reference on every path; the model returns the pair \<open>(fires, strength)\<close>.
\<close>

record ZScoreRule =
  zs_stats :: RollingStats
  zs_threshold :: real
  zs_last_value :: real
  zs_has_value :: bool

definition ZScoreRule_new :: "real \<Rightarrow> ZScoreRule" where
  "ZScoreRule_new threshold =
     \<lparr>zs_stats = RollingStats_new, zs_threshold = threshold, zs_last_value = 0,
      zs_has_value = False\<rparr>"

definition ZScoreRule_add_observation :: "ZScoreRule \<Rightarrow> real \<Rightarrow> ZScoreRule" where
  "ZScoreRule_add_observation r v =
     r\<lparr>zs_stats := RollingStats_add (zs_stats r) v, zs_last_value := v, zs_has_value := True\<rparr>"

definition ZScoreRule_evaluate :: "ZScoreRule \<Rightarrow> bool \<times> real" where
  "ZScoreRule_evaluate r =
     (if \<not> zs_has_value r \<or> RollingStats_count (zs_stats r) < 10 then (False, 0)
      else (let signal_strength = RollingStats_z_score (zs_stats r) (zs_last_value r)
            in (\<bar>signal_strength\<bar> \<ge> zs_threshold r, signal_strength)))"

definition ZScoreRule_reset :: "ZScoreRule \<Rightarrow> ZScoreRule" where
  "ZScoreRule_reset r =
     r\<lparr>zs_stats := RollingStats_reset (zs_stats r), zs_last_value := 0, zs_has_value := False\<rparr>"

record CorrelationBreakRule =
  cb_covar :: RollingCovar
  cb_correlation_threshold :: real
  cb_min_observations :: real
  cb_below_threshold :: bool

definition CorrelationBreakRule_new :: "real \<Rightarrow> real \<Rightarrow> CorrelationBreakRule" where
  "CorrelationBreakRule_new corr_threshold min_obs =
     \<lparr>cb_covar = RollingCovar_new, cb_correlation_threshold = corr_threshold,
      cb_min_observations = min_obs, cb_below_threshold = False\<rparr>"

definition CorrelationBreakRule_add_pair :: "CorrelationBreakRule \<Rightarrow> real \<Rightarrow> real \<Rightarrow> CorrelationBreakRule" where
  "CorrelationBreakRule_add_pair r x y = r\<lparr>cb_covar := RollingCovar_add (cb_covar r) x y\<rparr>"

text \<open>
  \<^verbatim>\<open>min_observations_\<close> is a \<^verbatim>\<open>double\<close>; the comparison converts the \<^verbatim>\<open>size_t\<close> count.
\<close>

definition CorrelationBreakRule_evaluate :: "CorrelationBreakRule \<Rightarrow> bool \<times> real" where
  "CorrelationBreakRule_evaluate r =
     (if to_double (RollingCovar_count (cb_covar r)) < cb_min_observations r then (False, 0)
      else (let corr = RollingCovar_correlation (cb_covar r)
            in (\<bar>corr\<bar> < cb_correlation_threshold r, corr)))"

definition CorrelationBreakRule_reset :: "CorrelationBreakRule \<Rightarrow> CorrelationBreakRule" where
  "CorrelationBreakRule_reset r =
     r\<lparr>cb_covar := RollingCovar_reset (cb_covar r), cb_below_threshold := False\<rparr>"

record VolumeRule =
  vr_volume_stats :: RollingStats
  vr_threshold :: real
  vr_last_volume :: real
  vr_has_volume :: bool

definition VolumeRule_new :: "real \<Rightarrow> VolumeRule" where
  "VolumeRule_new threshold =
     \<lparr>vr_volume_stats = RollingStats_new, vr_threshold = threshold, vr_last_volume = 0,
      vr_has_volume = False\<rparr>"

definition VolumeRule_add_volume :: "VolumeRule \<Rightarrow> real \<Rightarrow> VolumeRule" where
  "VolumeRule_add_volume r v =
     r\<lparr>vr_volume_stats := RollingStats_add (vr_volume_stats r) v, vr_last_volume := v,
       vr_has_volume := True\<rparr>"

definition VolumeRule_evaluate :: "VolumeRule \<Rightarrow> bool \<times> real" where
  "VolumeRule_evaluate r =
     (if \<not> vr_has_volume r \<or> RollingStats_count (vr_volume_stats r) < 20 then (False, 0)
      else (let signal_strength = RollingStats_z_score (vr_volume_stats r) (vr_last_volume r)
            in (signal_strength \<ge> vr_threshold r, signal_strength)))"

definition VolumeRule_reset :: "VolumeRule \<Rightarrow> VolumeRule" where
  "VolumeRule_reset r =
     r\<lparr>vr_volume_stats := RollingStats_reset (vr_volume_stats r), vr_last_volume := 0,
       vr_has_volume := False\<rparr>"


record MeanReversionRule =
  mr_fast_ema :: EMAStats
  mr_slow_ema :: EMAStats
  mr_threshold :: real
  mr_last_value :: real
  mr_has_value :: bool

definition MeanReversionRule_new :: "size_t \<Rightarrow> size_t \<Rightarrow> real \<Rightarrow> MeanReversionRule" where
  "MeanReversionRule_new fast_window slow_window threshold =
     \<lparr>mr_fast_ema = EMAStats_of_window fast_window, mr_slow_ema = EMAStats_of_window slow_window,
      mr_threshold = threshold, mr_last_value = 0, mr_has_value = False\<rparr>"

definition MeanReversionRule_add_observation :: "MeanReversionRule \<Rightarrow> real \<Rightarrow> MeanReversionRule" where
  "MeanReversionRule_add_observation r v =
     r\<lparr>mr_fast_ema := EMAStats_add (mr_fast_ema r) v,
       mr_slow_ema := EMAStats_add (mr_slow_ema r) v,
       mr_last_value := v, mr_has_value := True\<rparr>"

definition MeanReversionRule_evaluate :: "MeanReversionRule \<Rightarrow> bool \<times> real" where
  "MeanReversionRule_evaluate r =
     (if \<not> mr_has_value r \<or> \<not> EMAStats_is_initialized (mr_fast_ema r)
         \<or> \<not> EMAStats_is_initialized (mr_slow_ema r) then (False, 0)
      else (let fast_mean = EMAStats_mean (mr_fast_ema r);
                slow_mean = EMAStats_mean (mr_slow_ema r);
                fast_std = EMAStats_std_dev (mr_fast_ema r)
            in if fast_std \<le> 0 then (False, 0)
               else (let signal_strength = (fast_mean - slow_mean) / fast_std
                     in (\<bar>signal_strength\<bar> \<ge> mr_threshold r, signal_strength))))"

definition MeanReversionRule_reset :: "MeanReversionRule \<Rightarrow> MeanReversionRule" where
  "MeanReversionRule_reset r =
     r\<lparr>mr_fast_ema := EMAStats_reset (mr_fast_ema r),
       mr_slow_ema := EMAStats_reset (mr_slow_ema r),
       mr_last_value := 0, mr_has_value := False\<rparr>"

subsection \<open>IEEE 754 binary64 arithmetic\<close>

text \<open>
  Where a claim depends on how \<^verbatim>\<open>double\<close> arithmetic rounds, a \<^verbatim>\<open>double\<close> is modelled as
  the real number it represents and every operation rounds its exact result to the
  nearest binary64 value, ties to even: 53 significant bits, exponents from \<open>-1022\<close>,
  subnormals in steps of \<open>2\<^sup>-\<^sup>1\<^sup>0\<^sup>7\<^sup>4\<close>.  Infinities and NaN are outside the model: results
  of magnitude \<open>2\<^sup>1\<^sup>0\<^sup>2\<^sup>4\<close> and above, which overflow in the machine, do not occur in the
  latency histogram, whose values are bounded by \<open>2\<^sup>7\<^sup>1\<close>, nor in the covariance run
  evaluated below; a division by zero is modelled where it is used.
\<close>

type_synonym uint64_t = "64 word"

text \<open>Rounding a real to the nearest integer, ties to the even one.\<close>

definition round_half_even :: "real \<Rightarrow> int" where
  "round_half_even q =
     (let f = \<lfloor>q\<rfloor>; d = q - of_int f
      in if d < 1 / 2 then f
         else if d > 1 / 2 then f + 1
         else if even f then f else f + 1)"

text \<open>
  The exponent of the binade of \<open>x\<close>, not below that of the subnormals, and the spacing
  of the binary64 values in that binade (the unit in the last place).
\<close>

definition double_exponent :: "real \<Rightarrow> int" where
  "double_exponent x = max (- 1022) \<lfloor>log 2 \<bar>x\<bar>\<rfloor>"

definition double_ulp :: "real \<Rightarrow> real" where
  "double_ulp x = 2 powr of_int (double_exponent x - 52)"

text \<open>Round to nearest, ties to even.\<close>

definition round_double :: "real \<Rightarrow> real" where
  "round_double x =
     (if x = 0 then 0 else of_int (round_half_even (x / double_ulp x)) * double_ulp x)"

text \<open>The arithmetic operators on \<^verbatim>\<open>double\<close>, and \<^verbatim>\<open>static_cast<double>\<close> of a \<^verbatim>\<open>uint64_t\<close>.\<close>

definition double_add :: "real \<Rightarrow> real \<Rightarrow> real" where
  "double_add a b = round_double (a + b)"

definition double_sub :: "real \<Rightarrow> real \<Rightarrow> real" where
  "double_sub a b = round_double (a - b)"

definition double_mul :: "real \<Rightarrow> real \<Rightarrow> real" where
  "double_mul a b = round_double (a * b)"

definition double_div :: "real \<Rightarrow> real \<Rightarrow> real" where
  "double_div a b = round_double (a / b)"

definition uint64_to_double :: "uint64_t \<Rightarrow> real" where
  "uint64_to_double c = round_double (real (unat c))"

subsection \<open>Latency histogram (include/util/latency.hpp)\<close>

definition NUM_BUCKETS :: nat where
  "NUM_BUCKETS = 10"

definition BUCKET_EDGES :: "int list" where
  "BUCKET_EDGES = [0, 50, 100, 250, 500, 1000, 2000, 5000, 10000, 50000, 1000000]"

definition UINT64_MAX :: uint64_t where
  "UINT64_MAX = - 1"

record LatencyHistogram =
  lh_buckets :: "uint64_t list"
  lh_total_samples :: uint64_t
  lh_total_latency_us :: uint64_t
  lh_min_latency_us :: uint64_t
  lh_max_latency_us :: uint64_t
  lh_start_time :: time_point
  lh_timing_started :: bool

definition LatencyHistogram_reset :: "LatencyHistogram \<Rightarrow> LatencyHistogram" where
  "LatencyHistogram_reset h =
     h\<lparr>lh_buckets := map (\<lambda>bucket. 0) (lh_buckets h),
       lh_total_samples := 0,
       lh_total_latency_us := 0,
       lh_min_latency_us := UINT64_MAX,
       lh_max_latency_us := 0,
       lh_timing_started := False\<rparr>"

text \<open>
  The constructor calls \<^verbatim>\<open>reset()\<close> on an object whose members have their default
  initialisers; \<^verbatim>\<open>start_time_\<close> is a default-constructed time point (the epoch).
\<close>

definition LatencyHistogram_new :: LatencyHistogram where
  "LatencyHistogram_new =
     LatencyHistogram_reset
       \<lparr>lh_buckets = replicate NUM_BUCKETS 0, lh_total_samples = 0, lh_total_latency_us = 0,
        lh_min_latency_us = UINT64_MAX, lh_max_latency_us = 0, lh_start_time = 0,
        lh_timing_started = False\<rparr>"

text \<open>
  The bucket search of \<^verbatim>\<open>add_sample_us\<close>: \<^verbatim>\<open>for (i = 0; i < NUM_BUCKETS; ++i)\<close> with a
  \<^verbatim>\<open>break\<close> at the first edge above the sample.  \<open>bucket\<close> is the variable the loop
  assigns; it keeps its initial value when no edge is found.
\<close>

function find_bucket :: "uint64_t \<Rightarrow> nat \<Rightarrow> nat \<Rightarrow> nat" where
  "find_bucket latency_us i bucket =
     (if i < NUM_BUCKETS
      then (if latency_us < word_of_int (BUCKET_EDGES ! (i + 1)) then i
            else find_bucket latency_us (i + 1) bucket)
      else bucket)"
  by pat_completeness auto
termination
  by (relation "measure (\<lambda>(latency_us, i, bucket). NUM_BUCKETS - i)") auto

text \<open>
  \<^verbatim>\<open>add_sample_us\<close>, executed by one thread: the atomic exchange on \<^verbatim>\<open>timing_started_\<close>
  reads the clock on the first sample only, the \<^verbatim>\<open>fetch_add\<close>s wrap at \<open>2\<^sup>6\<^sup>4\<close>, and each
  compare-and-swap loop stores the sample when it is below the minimum (above the maximum).
\<close>

definition LatencyHistogram_add_sample_us ::
  "clock \<Rightarrow> LatencyHistogram \<Rightarrow> uint64_t \<Rightarrow> clock \<times> LatencyHistogram" where
  "LatencyHistogram_add_sample_us clk h latency_us =
     (let (clk1, h1) =
            (if \<not> lh_timing_started h
             then (case steady_clock_now clk of
                     (t, clk') \<Rightarrow> (clk', h\<lparr>lh_start_time := t, lh_timing_started := True\<rparr>))
             else (clk, h));
          bucket = find_bucket latency_us 0 0;
          bucket = (if bucket \<ge> NUM_BUCKETS then NUM_BUCKETS - 1 else bucket);
          h2 = h1\<lparr>lh_buckets := (lh_buckets h1)[bucket := lh_buckets h1 ! bucket + 1],
                  lh_total_samples := lh_total_samples h1 + 1,
                  lh_total_latency_us := lh_total_latency_us h1 + latency_us\<rparr>;
          h3 = (if latency_us < lh_min_latency_us h2
                then h2\<lparr>lh_min_latency_us := latency_us\<rparr> else h2);
          h4 = (if latency_us > lh_max_latency_us h3
                then h3\<lparr>lh_max_latency_us := latency_us\<rparr> else h3)
      in (clk1, h4))"

definition LatencyHistogram_add_sample ::
  "clock \<Rightarrow> LatencyHistogram \<Rightarrow> time_point \<Rightarrow> time_point \<Rightarrow> clock \<times> LatencyHistogram" where
  "LatencyHistogram_add_sample clk h start end_time =
     (let latency_us = duration_cast_microseconds (end_time - start)
      in LatencyHistogram_add_sample_us clk h (word_of_int latency_us))"

definition LatencyHistogram_total_samples :: "LatencyHistogram \<Rightarrow> uint64_t" where
  "LatencyHistogram_total_samples h = lh_total_samples h"

text \<open>
  The statistics below compute in \<^verbatim>\<open>double\<close>; they are modelled with binary64 rounding.
  \<^verbatim>\<open>mean_latency_us\<close> converts the latency sum and the sample count to \<^verbatim>\<open>double\<close> and
  divides.
\<close>

definition LatencyHistogram_mean_latency_us :: "LatencyHistogram \<Rightarrow> real" where
  "LatencyHistogram_mean_latency_us h =
     (let total = LatencyHistogram_total_samples h
      in if total > 0
         then double_div (uint64_to_double (lh_total_latency_us h)) (uint64_to_double total)
         else 0)"

definition LatencyHistogram_min_latency_us :: "LatencyHistogram \<Rightarrow> uint64_t" where
  "LatencyHistogram_min_latency_us h =
     (let min_val = lh_min_latency_us h in if min_val = UINT64_MAX then 0 else min_val)"

definition LatencyHistogram_max_latency_us :: "LatencyHistogram \<Rightarrow> uint64_t" where
  "LatencyHistogram_max_latency_us h = lh_max_latency_us h"

text \<open>
  \<^verbatim>\<open>static_cast<uint64_t>\<close> of a \<^verbatim>\<open>double\<close> truncates towards zero.  (The conversion is
  undefined in C++ when the truncated value does not fit; the model wraps there.)
\<close>

definition double_to_uint64 :: "real \<Rightarrow> uint64_t" where
  "double_to_uint64 x = word_of_int (if 0 \<le> x then \<lfloor>x\<rfloor> else \<lceil>x\<rceil>)"

text \<open>
  The cumulative scan of \<^verbatim>\<open>percentile_us\<close>, from bucket \<open>i\<close> with the running sum
  \<open>cumulative\<close>, returning from inside the loop at the first bucket that reaches the
  target count.  The bucket edges are \<^verbatim>\<open>int\<close>s of at most seven digits, so their
  conversion to \<^verbatim>\<open>double\<close> is exact.
\<close>

function percentile_scan :: "LatencyHistogram \<Rightarrow> uint64_t \<Rightarrow> nat \<Rightarrow> uint64_t \<Rightarrow> real" where
  "percentile_scan h target_count i cumulative =
     (if i < NUM_BUCKETS
      then (let cumulative' = cumulative + lh_buckets h ! i
            in if cumulative' \<ge> target_count
               then (let bucket_start = real_of_int (BUCKET_EDGES ! i);
                         bucket_end = real_of_int (BUCKET_EDGES ! (i + 1));
                         bucket_count = lh_buckets h ! i
                     in if bucket_count = 0 then bucket_start
                        else (let prev_cumulative = cumulative' - bucket_count;
                                  position =
                                    double_div (uint64_to_double (target_count - prev_cumulative))
                                      (uint64_to_double bucket_count)
                              in double_add bucket_start
                                   (double_mul position (double_sub bucket_end bucket_start))))
               else percentile_scan h target_count (i + 1) cumulative')
      else real_of_int (BUCKET_EDGES ! NUM_BUCKETS))"
  by pat_completeness auto
termination
  by (relation "measure (\<lambda>(h, target_count, i, cumulative). NUM_BUCKETS - i)") auto

text \<open>
  \<^verbatim>\<open>percentile_us(p)\<close>: the target count is \<^verbatim>\<open>total * p / 100.0\<close>, computed in \<^verbatim>\<open>double\<close>
  and truncated.
\<close>

definition LatencyHistogram_percentile_us :: "LatencyHistogram \<Rightarrow> real \<Rightarrow> real" where
  "LatencyHistogram_percentile_us h p =
     (let total = LatencyHistogram_total_samples h
      in if total = 0 then 0
         else (let target_count =
                     double_to_uint64 (double_div (double_mul (uint64_to_double total) p) 100)
               in percentile_scan h target_count 0 0))"

definition LatencyHistogram_p50_us :: "LatencyHistogram \<Rightarrow> real" where
  "LatencyHistogram_p50_us h = LatencyHistogram_percentile_us h 50"

definition LatencyHistogram_p95_us :: "LatencyHistogram \<Rightarrow> real" where
  "LatencyHistogram_p95_us h = LatencyHistogram_percentile_us h 95"

definition LatencyHistogram_p99_us :: "LatencyHistogram \<Rightarrow> real" where
  "LatencyHistogram_p99_us h = LatencyHistogram_percentile_us h 99"

text \<open>A sequence of \<^verbatim>\<open>add_sample_us\<close> calls, in order.\<close>

fun add_samples_us :: "clock \<Rightarrow> LatencyHistogram \<Rightarrow> uint64_t list \<Rightarrow> clock \<times> LatencyHistogram" where
  "add_samples_us clk h [] = (clk, h)"
| "add_samples_us clk h (latency_us # rest) =
     (case LatencyHistogram_add_sample_us clk h latency_us of
        (clk', h') \<Rightarrow> add_samples_us clk' h' rest)"

subsection \<open>The covariance accessors in binary64 (include/stats/rolling_covar.hpp)\<close>

text \<open>
  \<^verbatim>\<open>RollingCovar::add\<close> and the accessors behind \<^verbatim>\<open>correlation()\<close> once more, this time with
  every operation rounded as the machine rounds it.  The guard of \<^verbatim>\<open>correlation()\<close> tests
  the two variances, but the divisor is the square root of their rounded product;
  \<^verbatim>\<open>std::sqrt\<close> is correctly rounded.  A division by \<open>0.0\<close> yields an infinity or a NaN, no
  real number: the result is \<open>None\<close> there.
\<close>

definition double_sqrt :: "real \<Rightarrow> real" where
  "double_sqrt x = round_double (sqrt x)"

definition RollingCovar_add_binary64 :: "RollingCovar \<Rightarrow> real \<Rightarrow> real \<Rightarrow> RollingCovar" where
  "RollingCovar_add_binary64 s x y =
     (let count = rc_count s + 1;
          n = uint64_to_double count;
          dx = double_sub x (rc_mean_x s);
          dy = double_sub y (rc_mean_y s);
          mean_x = double_add (rc_mean_x s) (double_div dx n);
          mean_y = double_add (rc_mean_y s) (double_div dy n);
          c = double_add (rc_c s) (double_mul dx (double_sub y mean_y));
          m2_x = double_add (rc_m2_x s) (double_mul dx (double_sub x mean_x));
          m2_y = double_add (rc_m2_y s) (double_mul dy (double_sub y mean_y))
      in \<lparr>rc_mean_x = mean_x, rc_mean_y = mean_y, rc_c = c, rc_m2_x = m2_x, rc_m2_y = m2_y,
          rc_count = count\<rparr>)"

definition RollingCovar_covariance_binary64 :: "RollingCovar \<Rightarrow> real" where
  "RollingCovar_covariance_binary64 s =
     (if rc_count s > 1 then double_div (rc_c s) (uint64_to_double (rc_count s - 1)) else 0)"

definition RollingCovar_variance_x_binary64 :: "RollingCovar \<Rightarrow> real" where
  "RollingCovar_variance_x_binary64 s =
     (if rc_count s > 1 then double_div (rc_m2_x s) (uint64_to_double (rc_count s - 1)) else 0)"

definition RollingCovar_variance_y_binary64 :: "RollingCovar \<Rightarrow> real" where
  "RollingCovar_variance_y_binary64 s =
     (if rc_count s > 1 then double_div (rc_m2_y s) (uint64_to_double (rc_count s - 1)) else 0)"

definition RollingCovar_correlation_binary64 :: "RollingCovar \<Rightarrow> real option" where
  "RollingCovar_correlation_binary64 s =
     (let var_x = RollingCovar_variance_x_binary64 s;
          var_y = RollingCovar_variance_y_binary64 s
      in if var_x \<le> 0 \<or> var_y \<le> 0 then Some 0
         else (let divisor = double_sqrt (double_mul var_x var_y)
               in if divisor = 0 then None
                  else Some (double_div (RollingCovar_covariance_binary64 s) divisor)))"

text \<open>Feeding a list of pairs to a fresh \<^verbatim>\<open>RollingCovar\<close> in binary64.\<close>

definition covar_of_binary64 :: "(real \<times> real) list \<Rightarrow> RollingCovar" where
  "covar_of_binary64 ps = foldl (\<lambda>s (x, y). RollingCovar_add_binary64 s x y) RollingCovar_new ps"

subsection \<open>Ticks and signal events (include/md/tick.hpp)\<close>

text \<open>
  Symbols are \<^verbatim>\<open>std::string_view\<close>s into interned strings; \<^verbatim>\<open>SymbolTable::intern(s)\<close>
  returns a view of \<open>s\<close> itself.  A view is modelled as the string it shows.
\<close>

record Tick =
  tick_last_price :: real
  tick_bid_price :: real
  tick_ask_price :: real
  tick_last_size :: real
  tick_timestamp :: time_point
  tick_symbol :: string
  tick_sequence_id :: uint64_t

datatype SignalType =
  Z_SCORE_BREAK | CORRELATION_BREAK | PAIR_TRADE_ENTRY | PAIR_TRADE_EXIT | VOLUME_SPIKE

record SignalEvent =
  event_type :: SignalType
  primary_symbol :: string
  secondary_symbol :: string
  signal_strength :: real
  confidence :: real
  event_time :: time_point
  generation_time :: time_point
  signal_id :: uint64_t

text \<open>
  The five-argument constructor \<^verbatim>\<open>SignalEvent(type, primary, secondary, strength, conf)\<close>:
  its member initialisers read the clock once, for \<^verbatim>\<open>event_time\<close>, and copy that reading
  to \<^verbatim>\<open>generation_time\<close>; \<^verbatim>\<open>signal_id\<close> keeps its default 0.
\<close>

definition SignalEvent_new ::
  "clock \<Rightarrow> SignalType \<Rightarrow> string \<Rightarrow> string \<Rightarrow> real \<Rightarrow> real \<Rightarrow> SignalEvent \<times> clock" where
  "SignalEvent_new clk type primary secondary strength conf =
     (case steady_clock_now clk of
        (t, clk') \<Rightarrow>
          (\<lparr>event_type = type, primary_symbol = primary, secondary_symbol = secondary,
            signal_strength = strength, confidence = conf, event_time = t,
            generation_time = t, signal_id = 0\<rparr>, clk'))"

subsection \<open>Router (include/engine/router.hpp)\<close>

text \<open>
  The maps from symbols (or pair keys) to heap-allocated rules are partial maps to rule
  values.  \<^verbatim>\<open>signal_callback_\<close> is a \<^verbatim>\<open>std::function\<close>; the model keeps whether one is
  installed, and records the events it is invoked with in the world outside the router.
\<close>

record Router =
  zscore_rules :: "string \<rightharpoonup> ZScoreRule"
  volume_rules :: "string \<rightharpoonup> VolumeRule"
  correlation_rules :: "string \<rightharpoonup> CorrelationBreakRule"
  mean_reversion_rules :: "string \<rightharpoonup> MeanReversionRule"
  watched_pairs :: "(string \<times> string) list"
  latest_ticks :: "string \<rightharpoonup> Tick"
  signal_callback :: bool
  signal_counter :: uint64_t
  latency_hist :: LatencyHistogram
  ticks_processed :: uint64_t
  zscore_threshold :: real
  correlation_threshold :: real
  volume_threshold :: real

text \<open>
  The world outside the router: the clock, and the events the callback has been invoked
  with, oldest first.
\<close>

record World =
  w_clock :: clock
  w_delivered :: "SignalEvent list"

definition World_new :: "clock \<Rightarrow> World" where
  "World_new clk = \<lparr>w_clock = clk, w_delivered = []\<rparr>"

definition Router_new :: Router where
  "Router_new =
     \<lparr>zscore_rules = Map.empty, volume_rules = Map.empty, correlation_rules = Map.empty,
      mean_reversion_rules = Map.empty, watched_pairs = [], latest_ticks = Map.empty,
      signal_callback = False, signal_counter = 0, latency_hist = LatencyHistogram_new,
      ticks_processed = 0, zscore_threshold = 2.5, correlation_threshold = 0.3,
      volume_threshold = 3.0\<rparr>"

definition set_zscore_threshold :: "Router \<Rightarrow> real \<Rightarrow> Router" where
  "set_zscore_threshold r threshold = r\<lparr>zscore_threshold := threshold\<rparr>"

definition set_correlation_threshold :: "Router \<Rightarrow> real \<Rightarrow> Router" where
  "set_correlation_threshold r threshold = r\<lparr>correlation_threshold := threshold\<rparr>"

definition set_volume_threshold :: "Router \<Rightarrow> real \<Rightarrow> Router" where
  "set_volume_threshold r threshold = r\<lparr>volume_threshold := threshold\<rparr>"

definition set_signal_callback :: "Router \<Rightarrow> bool \<Rightarrow> Router" where
  "set_signal_callback r callback = r\<lparr>signal_callback := callback\<rparr>"

text \<open>\<^verbatim>\<open>std::string\<close>'s \<^verbatim>\<open><\<close> is the lexicographic order on bytes, as is \<open><\<close> on \<open>string\<close>.\<close>

definition make_pair_key :: "string \<Rightarrow> string \<Rightarrow> string" where
  "make_pair_key s1 s2 = (if s1 < s2 then s1 @ ''|'' @ s2 else s2 @ ''|'' @ s1)"

definition add_watched_pair :: "Router \<Rightarrow> string \<Rightarrow> string \<Rightarrow> Router" where
  "add_watched_pair r symbol1 symbol2 =
     (let pair_key = make_pair_key symbol1 symbol2
      in r\<lparr>watched_pairs := watched_pairs r @ [(symbol1, symbol2)],
           correlation_rules :=
             (correlation_rules r)(pair_key \<mapsto>
                CorrelationBreakRule_new (correlation_threshold r) 50)\<rparr>)"

definition ensure_rules_exist :: "Router \<Rightarrow> string \<Rightarrow> Router" where
  "ensure_rules_exist r symbol =
     (let r1 = (if zscore_rules r symbol = None
                then r\<lparr>zscore_rules := (zscore_rules r)(symbol \<mapsto> ZScoreRule_new (zscore_threshold r))\<rparr>
                else r);
          r2 = (if volume_rules r1 symbol = None
                then r1\<lparr>volume_rules := (volume_rules r1)(symbol \<mapsto> VolumeRule_new (volume_threshold r1))\<rparr>
                else r1);
          r3 = (if mean_reversion_rules r2 symbol = None
                then r2\<lparr>mean_reversion_rules :=
                          (mean_reversion_rules r2)(symbol \<mapsto> MeanReversionRule_new 10 50 2.0)\<rparr>
                else r2)
      in r3)"

text \<open>
  \<^verbatim>\<open>emit_signal\<close> returns at once when no callback is installed.  Otherwise it constructs
  the event (one clock reading, inside the constructor), takes the next signal id, reads
  the clock again for \<^verbatim>\<open>generation_time\<close> and invokes the callback.
\<close>

definition emit_signal ::
  "World \<Rightarrow> Router \<Rightarrow> SignalType \<Rightarrow> string \<Rightarrow> string \<Rightarrow> real \<Rightarrow> real \<Rightarrow> World \<times> Router" where
  "emit_signal w r type primary secondary strength conf =
     (if \<not> signal_callback r then (w, r)
      else (case SignalEvent_new (w_clock w) type primary
                   (if secondary = [] then [] else secondary) strength conf of
              (event, clk1) \<Rightarrow>
                (case steady_clock_now clk1 of
                   (t, clk2) \<Rightarrow>
                     (let event' = event\<lparr>signal_id := signal_counter r, generation_time := t\<rparr>
                      in (w\<lparr>w_clock := clk2, w_delivered := w_delivered w @ [event']\<rparr>,
                          r\<lparr>signal_counter := signal_counter r + 1\<rparr>)))))"

text \<open>
  \<^verbatim>\<open>process_single_symbol_signals\<close> reaches each rule through \<^verbatim>\<open>operator[]\<close> and
  dereferences the pointer; on a missing key that is a null dereference, the result
  \<open>None\<close> of the model.
\<close>

definition process_single_symbol_signals :: "World \<Rightarrow> Router \<Rightarrow> Tick \<Rightarrow> (World \<times> Router) option" where
  "process_single_symbol_signals w r tick =
     (let symbol = tick_symbol tick
      in case zscore_rules r symbol of
           None \<Rightarrow> None
         | Some zscore_rule \<Rightarrow>
             (let zscore_rule' = ZScoreRule_add_observation zscore_rule (tick_last_price tick);
                  r1 = r\<lparr>zscore_rules := (zscore_rules r)(symbol \<mapsto> zscore_rule')\<rparr>;
                  (w1, r2) = (case ZScoreRule_evaluate zscore_rule' of
                                (fires, zscore_strength) \<Rightarrow>
                                  if fires
                                  then emit_signal w r1 Z_SCORE_BREAK symbol [] zscore_strength 0.95
                                  else (w, r1))
              in case volume_rules r2 symbol of
                   None \<Rightarrow> None
                 | Some volume_rule \<Rightarrow>
                     (let volume_rule' = VolumeRule_add_volume volume_rule (tick_last_size tick);
                          r3 = r2\<lparr>volume_rules := (volume_rules r2)(symbol \<mapsto> volume_rule')\<rparr>;
                          (w2, r4) = (case VolumeRule_evaluate volume_rule' of
                                        (fires, volume_strength) \<Rightarrow>
                                          if fires
                                          then emit_signal w1 r3 VOLUME_SPIKE symbol [] volume_strength 0.90
                                          else (w1, r3))
                      in case mean_reversion_rules r4 symbol of
                           None \<Rightarrow> None
                         | Some mean_rev_rule \<Rightarrow>
                             (let mean_rev_rule' =
                                    MeanReversionRule_add_observation mean_rev_rule (tick_last_price tick);
                                  r5 = r4\<lparr>mean_reversion_rules :=
                                            (mean_reversion_rules r4)(symbol \<mapsto> mean_rev_rule')\<rparr>
                              in Some (case MeanReversionRule_evaluate mean_rev_rule' of
                                         (fires, mean_rev_strength) \<Rightarrow>
                                           if fires
                                           then emit_signal w2 r5 PAIR_TRADE_ENTRY symbol []
                                                  mean_rev_strength 0.85
                                           else (w2, r5))))))"

text \<open>
  The loop of \<^verbatim>\<open>process_cross_symbol_signals\<close> over \<^verbatim>\<open>watched_pairs_\<close>, as a recursion
  over the pairs still to visit; \<open>current_symbol\<close> is the symbol of the tick.
\<close>

fun cross_symbol_loop ::
  "World \<Rightarrow> Router \<Rightarrow> string \<Rightarrow> (string \<times> string) list \<Rightarrow> (World \<times> Router) option" where
  "cross_symbol_loop w r current_symbol [] = Some (w, r)"
| "cross_symbol_loop w r current_symbol ((symbol1, symbol2) # rest) =
     (if symbol1 \<noteq> current_symbol \<and> symbol2 \<noteq> current_symbol
      then cross_symbol_loop w r current_symbol rest
      else (case (latest_ticks r symbol1, latest_ticks r symbol2) of
              (Some tick1, Some tick2) \<Rightarrow>
                (let pair_key = make_pair_key symbol1 symbol2
                 in case correlation_rules r pair_key of
                      None \<Rightarrow> None
                    | Some corr_rule \<Rightarrow>
                        (let corr_rule' = CorrelationBreakRule_add_pair corr_rule
                                            (tick_last_price tick1) (tick_last_price tick2);
                             r1 = r\<lparr>correlation_rules := (correlation_rules r)(pair_key \<mapsto> corr_rule')\<rparr>;
                             (w1, r2) = (case CorrelationBreakRule_evaluate corr_rule' of
                                           (fires, corr_strength) \<Rightarrow>
                                             if fires
                                             then emit_signal w r1 CORRELATION_BREAK symbol1 symbol2
                                                    corr_strength 0.88
                                             else (w, r1))
                         in cross_symbol_loop w1 r2 current_symbol rest))
            | _ \<Rightarrow> cross_symbol_loop w r current_symbol rest))"

definition process_cross_symbol_signals :: "World \<Rightarrow> Router \<Rightarrow> Tick \<Rightarrow> (World \<times> Router) option" where
  "process_cross_symbol_signals w r tick =
     cross_symbol_loop w r (tick_symbol tick) (watched_pairs r)"

definition process_tick :: "World \<Rightarrow> Router \<Rightarrow> Tick \<Rightarrow> (World \<times> Router) option" where
  "process_tick w r tick =
     (case steady_clock_now (w_clock w) of
        (start_time, clk1) \<Rightarrow>
          (let symbol = tick_symbol tick;
               r1 = r\<lparr>latest_ticks := (latest_ticks r)(symbol \<mapsto> tick)\<rparr>;
               r2 = ensure_rules_exist r1 symbol
           in case process_single_symbol_signals (w\<lparr>w_clock := clk1\<rparr>) r2 tick of
                None \<Rightarrow> None
              | Some (w2, r3) \<Rightarrow>
                  (case process_cross_symbol_signals w2 r3 tick of
                     None \<Rightarrow> None
                   | Some (w3, r4) \<Rightarrow>
                       (case LatencyHistogram_add_sample (w_clock w3) (latency_hist r4)
                               (tick_timestamp tick) start_time of
                          (clk2, h) \<Rightarrow>
                            Some (w3\<lparr>w_clock := clk2\<rparr>,
                                  r4\<lparr>latency_hist := h,
                                     ticks_processed := ticks_processed r4 + 1\<rparr>)))))"

definition reset_stats :: "Router \<Rightarrow> Router" where
  "reset_stats r =
     r\<lparr>ticks_processed := 0,
       signal_counter := 0,
       latency_hist := LatencyHistogram_reset (latency_hist r),
       zscore_rules := (\<lambda>symbol. map_option ZScoreRule_reset (zscore_rules r symbol)),
       volume_rules := (\<lambda>symbol. map_option VolumeRule_reset (volume_rules r symbol)),
       correlation_rules := (\<lambda>pair. map_option CorrelationBreakRule_reset (correlation_rules r pair)),
       mean_reversion_rules :=
         (\<lambda>symbol. map_option MeanReversionRule_reset (mean_reversion_rules r symbol))\<rparr>"

text \<open>A client of the router: any sequence of calls of its public member functions.\<close>

datatype router_call =
    Set_zscore_threshold real
  | Set_correlation_threshold real
  | Set_volume_threshold real
  | Set_signal_callback bool
  | Add_watched_pair string string
  | Process_tick Tick
  | Reset_stats

fun router_step :: "World \<Rightarrow> Router \<Rightarrow> router_call \<Rightarrow> (World \<times> Router) option" where
  "router_step w r (Set_zscore_threshold x) = Some (w, set_zscore_threshold r x)"
| "router_step w r (Set_correlation_threshold x) = Some (w, set_correlation_threshold r x)"
| "router_step w r (Set_volume_threshold x) = Some (w, set_volume_threshold r x)"
| "router_step w r (Set_signal_callback cb) = Some (w, set_signal_callback r cb)"
| "router_step w r (Add_watched_pair s1 s2) = Some (w, add_watched_pair r s1 s2)"
| "router_step w r (Process_tick tick) = process_tick w r tick"
| "router_step w r Reset_stats = Some (w, reset_stats r)"

fun run_router :: "World \<Rightarrow> Router \<Rightarrow> router_call list \<Rightarrow> (World \<times> Router) option" where
  "run_router w r [] = Some (w, r)"
| "run_router w r (c # cs) =
     (case router_step w r c of None \<Rightarrow> None | Some (w', r') \<Rightarrow> run_router w' r' cs)"

subsection \<open>Invariants used in the proofs\<close>

text \<open>
  What a histogram holds after the samples \<open>xs\<close> have been added to a fresh one: ten
  buckets whose counts add up to the number of samples, each non-empty bucket being the
  bucket of some sample; the sample count; the (wrapping) latency sum; and a minimum and a
  maximum that bound every sample, the maximum being at most the sum of the samples.
\<close>

definition hist_inv :: "LatencyHistogram \<Rightarrow> uint64_t list \<Rightarrow> bool" where
  "hist_inv h xs \<longleftrightarrow>
     length (lh_buckets h) = 10 \<and>
     sum_list (map unat (lh_buckets h)) = length xs \<and>
     (\<forall>i<10. lh_buckets h ! i \<noteq> 0 \<longrightarrow> (\<exists>x\<in>set xs. find_bucket x 0 0 = i)) \<and>
     lh_total_samples h = of_nat (length xs) \<and>
     lh_total_latency_us h = of_nat (sum_list (map unat xs)) \<and>
     (\<forall>x\<in>set xs. lh_min_latency_us h \<le> x \<and> x \<le> lh_max_latency_us h) \<and>
     unat (lh_max_latency_us h) \<le> sum_list (map unat xs)"

text \<open>Every watched pair has its correlation rule under the pair's key.\<close>

definition pairs_have_rules :: "Router \<Rightarrow> bool" where
  "pairs_have_rules r \<longleftrightarrow>
     (\<forall>(symbol1, symbol2)\<in>set (watched_pairs r).
        correlation_rules r (make_pair_key symbol1 symbol2) \<noteq> None)"

text \<open>
  \<open>emits ps w w'\<close>: going from world \<open>w\<close> to world \<open>w'\<close> the program has read the clock
  some number of times and has delivered some new events to the callback; each new event
  carries two consecutive clock readings as its \<open>event_time\<close> and \<open>generation_time\<close>,
  and each new correlation-break event names a pair of \<open>ps\<close>, in the order stored there.
\<close>

definition emits :: "(string \<times> string) list \<Rightarrow> World \<Rightarrow> World \<Rightarrow> bool" where
  "emits ps w w' \<longleftrightarrow>
     (\<exists>j new.
        w_clock w' = (\<lambda>n. w_clock w (n + j)) \<and>
        w_delivered w' = w_delivered w @ new \<and>
        (\<forall>e\<in>set new.
           (event_type e = CORRELATION_BREAK \<longrightarrow> (primary_symbol e, secondary_symbol e) \<in> set ps) \<and>
           (\<exists>k. event_time e = w_clock w k \<and> generation_time e = w_clock w (Suc k))))"

text \<open>The pairs registered by the \<^verbatim>\<open>add_watched_pair\<close> calls of a call sequence, in call order.\<close>

fun registered_pairs :: "router_call list \<Rightarrow> (string \<times> string) list" where
  "registered_pairs [] = []"
| "registered_pairs (Add_watched_pair s1 s2 # cs) = (s1, s2) # registered_pairs cs"
| "registered_pairs (c # cs) = registered_pairs cs"

subsection \<open>A concrete scenario\<close>

text \<open>
  A callback is installed, the pair is registered as \<^verbatim>\<open>add_watched_pair("B", "A")\<close>, and
  the router processes one tick of B followed by \<open>n\<close> ticks of A, all at price 1 and size
  1.  The ticks were produced at clock readings 0, 1, 2, \<dots>; the clock reads 1000000 when
  processing starts and advances by one at each reading.
\<close>

definition scenario_clock :: clock where
  "scenario_clock n = 1000000 + int n"

definition tick_B :: Tick where
  "tick_B = \<lparr>tick_last_price = 1, tick_bid_price = 1, tick_ask_price = 1, tick_last_size = 1,
             tick_timestamp = 0, tick_symbol = ''B'', tick_sequence_id = 1\<rparr>"

definition tick_A :: "nat \<Rightarrow> Tick" where
  "tick_A k = \<lparr>tick_last_price = 1, tick_bid_price = 1, tick_ask_price = 1, tick_last_size = 1,
               tick_timestamp = int k, tick_symbol = ''A'', tick_sequence_id = of_nat k\<rparr>"

definition scenario_calls :: "nat \<Rightarrow> router_call list" where
  "scenario_calls n =
     [Set_signal_callback True, Add_watched_pair ''B'' ''A'', Process_tick tick_B] @
     map (\<lambda>k. Process_tick (tick_A k)) [1..<Suc n]"

text \<open>
  The world and the router after the first 49 ticks of A (no rule has fired yet), and the
  event that the 50th tick of A makes the router deliver.
\<close>

definition scenario_world :: World where
  "scenario_world = \<lparr>w_clock = \<lambda>n. 1000051 + int n, w_delivered = []\<rparr>"

definition scenario_router :: Router where
  "scenario_router =
     \<lparr>zscore_rules =
        [''B'' \<mapsto>
           \<lparr>zs_stats = \<lparr>rs_mean = 1, rs_m2 = 0, rs_count = 1\<rparr>,
            zs_threshold = 5 / 2, zs_last_value = 1, zs_has_value = True\<rparr>,
         ''A'' \<mapsto>
           \<lparr>zs_stats = \<lparr>rs_mean = 1, rs_m2 = 0, rs_count = 49\<rparr>,
            zs_threshold = 5 / 2, zs_last_value = 1, zs_has_value = True\<rparr>],
      volume_rules =
        [''B'' \<mapsto>
           \<lparr>vr_volume_stats = \<lparr>rs_mean = 1, rs_m2 = 0, rs_count = 1\<rparr>,
            vr_threshold = 3, vr_last_volume = 1, vr_has_volume = True\<rparr>,
         ''A'' \<mapsto>
           \<lparr>vr_volume_stats = \<lparr>rs_mean = 1, rs_m2 = 0, rs_count = 49\<rparr>,
            vr_threshold = 3, vr_last_volume = 1, vr_has_volume = True\<rparr>],
      correlation_rules =
        [''A|B'' \<mapsto>
           \<lparr>cb_covar =
              \<lparr>rc_mean_x = 1, rc_mean_y = 1, rc_c = 0, rc_m2_x = 0, rc_m2_y = 0,
               rc_count = 49\<rparr>,
            cb_correlation_threshold = 3 / 10, cb_min_observations = 50,
            cb_below_threshold = False\<rparr>],
      mean_reversion_rules =
        [''B'' \<mapsto>
           \<lparr>mr_fast_ema =
              \<lparr>ema_alpha = 2 / 11, ema_mean = 1, ema_var = 0, ema_initialized = True\<rparr>,
            mr_slow_ema =
              \<lparr>ema_alpha = 2 / 51, ema_mean = 1, ema_var = 0, ema_initialized = True\<rparr>,
            mr_threshold = 2, mr_last_value = 1, mr_has_value = True\<rparr>,
         ''A'' \<mapsto>
           \<lparr>mr_fast_ema =
              \<lparr>ema_alpha = 2 / 11, ema_mean = 1, ema_var = 0, ema_initialized = True\<rparr>,
            mr_slow_ema =
              \<lparr>ema_alpha = 2 / 51, ema_mean = 1, ema_var = 0, ema_initialized = True\<rparr>,
            mr_threshold = 2, mr_last_value = 1, mr_has_value = True\<rparr>],
      watched_pairs = [(''B'', ''A'')],
      latest_ticks =
        [''B'' \<mapsto>
           \<lparr>tick_last_price = 1, tick_bid_price = 1, tick_ask_price = 1, tick_last_size = 1,
            tick_timestamp = 0, tick_symbol = ''B'', tick_sequence_id = 1\<rparr>,
         ''A'' \<mapsto>
           \<lparr>tick_last_price = 1, tick_bid_price = 1, tick_ask_price = 1, tick_last_size = 1,
            tick_timestamp = 49, tick_symbol = ''A'', tick_sequence_id = 49\<rparr>],
      signal_callback = True, signal_counter = 0,
      latency_hist =
        \<lparr>lh_buckets = [0, 0, 0, 0, 0, 50, 0, 0, 0, 0], lh_total_samples = 50,
         lh_total_latency_us = 50000, lh_min_latency_us = 1000, lh_max_latency_us = 1000,
         lh_start_time = 1000001, lh_timing_started = True\<rparr>,
      ticks_processed = 50, zscore_threshold = 5 / 2, correlation_threshold = 3 / 10,
      volume_threshold = 3\<rparr>"

definition scenario_event :: SignalEvent where
  "scenario_event =
     \<lparr>event_type = CORRELATION_BREAK, primary_symbol = ''B'', secondary_symbol = ''A'',
      signal_strength = 0, confidence = 0.88, event_time = 1000052,
      generation_time = 1000053, signal_id = 0\<rparr>"

section \<open>Verification\<close>

subsection \<open>SPSC ring buffer\<close>

text \<open>A size that passes the \<^verbatim>\<open>static_assert\<close>s is a power of two, so masking is \<open>mod N\<close>.\<close>

lemma pow2_nat:
  fixes n :: nat
  shows "0 < n \<Longrightarrow> n AND (n - 1) = 0 \<Longrightarrow> \<exists>k. n = 2 ^ k"
proof (induction n rule: less_induct)
  case (less n)
  show ?case
  proof (cases "even n")
    case True
    then obtain m where m: "n = 2 * m" by (auto elim: evenE)
    with less.prems have mpos: "0 < m" by simp
    have "(n - 1) div 2 = m - 1" using m mpos by simp
    then have "n AND (n - 1) = 2 * (m AND (m - 1))"
      using m mpos by (subst and_nat_unfold) simp
    with less.prems have "m AND (m - 1) = 0" by simp
    moreover have "m < n" using m mpos by simp
    ultimately obtain k where "m = 2 ^ k" using less.IH mpos by blast
    then have "n = 2 ^ Suc k" using m by simp
    then show ?thesis by blast
  next
    case False
    then obtain m where m: "n = 2 * m + 1" by (auto elim: oddE)
    have "n AND (n - 1) = 2 * m"
      using m by (subst and_nat_unfold) auto
    with less.prems have "m = 0" by simp
    then have "n = 2 ^ 0" using m by simp
    then show ?thesis by blast
  qed
qed

lemma valid_size_pow2:
  assumes "valid_size N"
  shows "\<exists>k. 0 < k \<and> k < 64 \<and> unat N = 2 ^ k"
proof -
  from assms have ge: "2 \<le> N" and z: "N AND (N - 1) = 0"
    by (simp_all add: valid_size_def)
  from ge have n2: "2 \<le> unat N" by (simp add: word_le_nat_alt)
  then have nz: "N \<noteq> 0" by auto
  have "unat (N AND (N - 1)) = unat N AND (unat N - 1)"
    using nz by (simp add: unsigned_and_eq unat_minus_one)
  with z have "unat N AND (unat N - 1) = 0" by simp
  with n2 obtain k where k: "unat N = 2 ^ k" using pow2_nat [of "unat N"] by auto
  have "unat N < 2 ^ 64" using unsigned_less [of N] by simp
  with k have "(2::nat) ^ k < 2 ^ 64" by simp
  then have "k < 64" by (rule power_less_imp_less_exp [rotated]) simp
  moreover have "0 < k" using k n2 by (cases k) auto
  ultimately show ?thesis using k by blast
qed

lemma unat_and_MASK:
  assumes "valid_size N"
  shows "unat (x AND MASK N) = unat x mod unat N"
proof -
  from valid_size_pow2 [OF assms] obtain k where k: "0 < k" "k < 64" "unat N = 2 ^ k" by blast
  have "N = of_nat (unat N)" by simp
  also have "\<dots> = 2 ^ k" by (simp only: k of_nat_power of_nat_numeral)
  finally have "MASK N = mask k" by (simp add: MASK_def mask_eq_decr_exp)
  then have "x AND MASK N = take_bit k x" by (simp add: take_bit_eq_mask)
  then have "unat (x AND MASK N) = take_bit k (unat x)"
    by (simp only: unsigned_take_bit_eq)
  then show ?thesis using k by (simp add: take_bit_eq_mod)
qed

lemma valid_size_dvd:
  assumes "valid_size N"
  shows "unat N dvd 2 ^ 64" and "2 \<le> unat N"
proof -
  from valid_size_pow2 [OF assms] obtain k where k: "0 < k" "k < 64" "unat N = 2 ^ k" by blast
  have "(2::nat) ^ k dvd 2 ^ 64" using k(2) by (intro le_imp_power_dvd) simp
  then show "unat N dvd 2 ^ 64" by (simp only: k)
  from assms show "2 \<le> unat N" by (simp add: valid_size_def word_le_nat_alt)
qed

lemma unat_plus_mod:
  assumes "valid_size N"
  shows "unat (t + of_nat i :: size_t) mod unat N = (unat t + i) mod unat N"
proof -
  have "unat (t + of_nat i :: size_t) = (unat t + i) mod 2 ^ 64"
    by (simp add: unat_word_ariths unat_of_nat mod_simps)
  then show ?thesis using valid_size_dvd(1) [OF assms] by (simp add: mod_mod_cancel)
qed

lemma mod_shift_le:
  fixes a i j n :: nat
  assumes "i \<le> j" "j < n" "(a + i) mod n = (a + j) mod n"
  shows "i = j"
proof -
  have "a + i \<le> a + j" using assms(1) by simp
  from mod_eq_dvd_iff_nat [OF this, of n] assms(3)
  have "n dvd (a + j) - (a + i)" by simp
  then have "n dvd j - i" by simp
  moreover have "j - i < n" using assms(2) by simp
  ultimately have "j - i = 0" by (meson dvd_imp_le not_less zero_less_iff_neq_zero)
  with assms(1) show ?thesis by simp
qed

lemma mod_shift_inj:
  fixes a i j n :: nat
  assumes "i < n" "j < n" "(a + i) mod n = (a + j) mod n"
  shows "i = j"
proof (cases "i \<le> j")
  case True
  then show ?thesis using assms mod_shift_le by blast
next
  case False
  then have "j \<le> i" by simp
  then show ?thesis using assms mod_shift_le [of j i n a] by simp
qed


lemma full_iff:
  assumes "valid_size N" "holds N q xs"
  shows "((q_head q + 1) AND MASK N) = (q_tail q AND MASK N) \<longleftrightarrow> Suc (length xs) = unat N"
proof -
  let ?n = "unat N" and ?t = "unat (q_tail q)" and ?l = "length xs"
  from assms(2) have h: "q_head q = q_tail q + of_nat ?l" and l: "?l < ?n"
    by (simp_all add: holds_def)
  have "q_head q + 1 = q_tail q + of_nat (Suc ?l)" using h by simp
  then have "unat ((q_head q + 1) AND MASK N) = (?t + Suc ?l) mod ?n"
    using unat_and_MASK [OF assms(1)] unat_plus_mod [OF assms(1)] by metis
  moreover have "unat (q_tail q AND MASK N) = (?t + 0) mod ?n"
    using unat_and_MASK [OF assms(1)] by simp
  ultimately have "((q_head q + 1) AND MASK N) = (q_tail q AND MASK N) \<longleftrightarrow>
      (?t + Suc ?l) mod ?n = (?t + 0) mod ?n"
    by (metis word_unat_eq_iff)
  also have "\<dots> \<longleftrightarrow> Suc ?l = ?n"
  proof
    assume eq: "(?t + Suc ?l) mod ?n = (?t + 0) mod ?n"
    show "Suc ?l = ?n"
    proof (rule ccontr)
      assume "Suc ?l \<noteq> ?n"
      with l have "Suc ?l < ?n" by simp
      moreover have "0 < ?n" using l by simp
      ultimately have "Suc ?l = 0" using eq mod_shift_inj by blast
      then show False by simp
    qed
  next
    assume "Suc ?l = ?n"
    then have "(?t + Suc ?l) mod ?n = ?t mod ?n" by (metis mod_add_self2)
    then show "(?t + Suc ?l) mod ?n = (?t + 0) mod ?n" by simp
  qed
  finally show ?thesis .
qed

lemma empty_iff:
  assumes "valid_size N" "holds N q xs"
  shows "(q_tail q AND MASK N) = (q_head q AND MASK N) \<longleftrightarrow> xs = []"
proof -
  let ?n = "unat N" and ?t = "unat (q_tail q)" and ?l = "length xs"
  from assms(2) have h: "q_head q = q_tail q + of_nat ?l" and l: "?l < ?n"
    by (simp_all add: holds_def)
  have "unat (q_head q AND MASK N) = (?t + ?l) mod ?n"
    using h unat_and_MASK [OF assms(1)] unat_plus_mod [OF assms(1)] by metis
  moreover have "unat (q_tail q AND MASK N) = (?t + 0) mod ?n"
    using unat_and_MASK [OF assms(1)] by simp
  ultimately have "(q_tail q AND MASK N) = (q_head q AND MASK N) \<longleftrightarrow>
      (?t + 0) mod ?n = (?t + ?l) mod ?n"
    by (metis word_unat_eq_iff)
  also have "\<dots> \<longleftrightarrow> ?l = 0"
    using l mod_shift_inj [of 0 ?n ?l ?t] by auto
  finally show ?thesis by simp
qed


lemma push_full:
  assumes "valid_size N" "holds N q xs" "Suc (length xs) = unat N"
  shows "push N q v = (False, q)"
  using full_iff [OF assms(1,2)] assms(3) by (simp add: push_def)

lemma push_ok:
  assumes "valid_size N" "holds N q xs" "Suc (length xs) < unat N"
  shows "\<exists>q'. push N q v = (True, q') \<and> holds N q' (xs @ [v])"
proof -
  let ?n = "unat N" and ?t = "unat (q_tail q)" and ?l = "length xs"
  let ?q' = "q\<lparr>q_buffer := (q_buffer q)[unat (q_head q AND MASK N) := v],
               q_head := q_head q + 1\<rparr>"
  from assms(2) have h: "q_head q = q_tail q + of_nat ?l" and len: "length (q_buffer q) = ?n"
    and live: "\<forall>i<?l. q_buffer q ! ((?t + i) mod ?n) = xs ! i"
    by (simp_all add: holds_def)
  have npos: "0 < ?n" using assms(3) by simp
  have slot: "unat (q_head q AND MASK N) = (?t + ?l) mod ?n"
    using h unat_and_MASK [OF assms(1)] unat_plus_mod [OF assms(1)] by metis
  have "push N q v = (True, ?q')"
    using full_iff [OF assms(1,2)] assms(3) by (simp add: push_def Let_def)
  moreover have "holds N ?q' (xs @ [v])"
    unfolding holds_def
  proof (intro conjI allI impI)
    show "length (q_buffer ?q') = ?n" using len by simp
    show "length (xs @ [v]) < ?n" using assms(3) by simp
    show "q_head ?q' = q_tail ?q' + of_nat (length (xs @ [v]))" using h by simp
  next
    fix i assume i: "i < length (xs @ [v])"
    show "q_buffer ?q' ! ((unat (q_tail ?q') + i) mod ?n) = (xs @ [v]) ! i"
    proof (cases "i = ?l")
      case True
      then show ?thesis using slot len npos by simp
    next
      case False
      with i have il: "i < ?l" by simp
      then have "(?t + i) mod ?n \<noteq> (?t + ?l) mod ?n"
        using mod_shift_inj [of i ?n ?l ?t] assms(3) by auto
      then show ?thesis using slot live il by (simp add: nth_append)
    qed
  qed
  ultimately show ?thesis by blast
qed

lemma pop_empty:
  assumes "valid_size N" "holds N q []"
  shows "pop mf N q = (None, q)"
  using empty_iff [OF assms] by (simp add: pop_def)

lemma pop_ok:
  assumes "valid_size N" "holds N q (x # xs)"
  shows "\<exists>q'. pop mf N q = (Some x, q') \<and> holds N q' xs"
proof -
  let ?n = "unat N" and ?t = "unat (q_tail q)" and ?l = "length xs"
  let ?slot = "unat (q_tail q AND MASK N)"
  let ?q' = "q\<lparr>q_buffer := (q_buffer q)[?slot := mf (q_buffer q ! ?slot)],
               q_tail := q_tail q + 1\<rparr>"
  from assms(2) have h: "q_head q = q_tail q + of_nat (Suc ?l)" and len: "length (q_buffer q) = ?n"
    and l: "Suc ?l < ?n"
    and live: "\<forall>i<Suc ?l. q_buffer q ! ((?t + i) mod ?n) = (x # xs) ! i"
    by (simp_all add: holds_def)
  have slot: "?slot = (?t + 0) mod ?n"
    using unat_and_MASK [OF assms(1)] by simp
  have t1: "\<And>i. (unat (q_tail q + 1) + i) mod ?n = (?t + Suc i) mod ?n"
  proof -
    fix i
    have "unat (q_tail q + 1) mod ?n = (?t + 1) mod ?n"
      using unat_plus_mod [OF assms(1), of "q_tail q" 1] by simp
    then have "(unat (q_tail q + 1) + i) mod ?n = ((?t + 1) + i) mod ?n"
      by (metis mod_add_left_eq)
    then show "(unat (q_tail q + 1) + i) mod ?n = (?t + Suc i) mod ?n" by simp
  qed
  have "q_buffer q ! ?slot = x" using live slot by force
  then have "pop mf N q = (Some x, ?q')"
    using empty_iff [OF assms] by (simp add: pop_def Let_def)
  moreover have "holds N ?q' xs"
    unfolding holds_def
  proof (intro conjI allI impI)
    show "length (q_buffer ?q') = ?n" using len by simp
    show "?l < ?n" using l by simp
    show "q_head ?q' = q_tail ?q' + of_nat ?l" using h by simp
  next
    fix i assume i: "i < ?l"
    then have "(?t + Suc i) mod ?n \<noteq> (?t + 0) mod ?n"
      using mod_shift_inj [of "Suc i" ?n 0 ?t] l by auto
    moreover have "q_buffer q ! ((?t + Suc i) mod ?n) = xs ! i" using live i by force
    ultimately show "q_buffer ?q' ! ((unat (q_tail ?q') + i) mod ?n) = xs ! i"
      using slot t1 by simp
  qed
  ultimately show ?thesis by blast
qed

lemma holds_new:
  assumes "valid_size N"
  shows "holds N (SPSCQueue_new N d) []"
  using valid_size_dvd(2) [OF assms] by (simp add: holds_def SPSCQueue_new_def)


lemma run_queue_refines:
  assumes "valid_size N" "holds N q xs"
  shows "\<exists>q'. run_queue mf N q cs = (fst (fifo_spec (unat N - 1) xs cs), q') \<and>
              holds N q' (snd (fifo_spec (unat N - 1) xs cs))"
  using assms(2)
proof (induction cs arbitrary: q xs)
  case Nil
  then show ?case by simp
next
  case (Cons c cs)
  show ?case
  proof (cases c)
    case (Push v)
    show ?thesis
    proof (cases "length xs < unat N - 1")
      case True
      then have "Suc (length xs) < unat N" by simp
      from push_ok [OF assms(1) Cons.prems this, of v]
      obtain q1 where q1: "push N q v = (True, q1)" "holds N q1 (xs @ [v])" by blast
      from Cons.IH [OF q1(2)] show ?thesis
        using Push True q1(1) by (auto split: prod.splits)
    next
      case False
      moreover from Cons.prems have "length xs < unat N" by (simp add: holds_def)
      ultimately have "Suc (length xs) = unat N" by simp
      from push_full [OF assms(1) Cons.prems this, of v]
      have "push N q v = (False, q)" .
      with Cons.IH [OF Cons.prems] show ?thesis
        using Push False by (auto split: prod.splits)
    qed
  next
    case Pop
    show ?thesis
    proof (cases xs)
      case Nil
      with Cons.prems have "pop mf N q = (None, q)" using pop_empty [OF assms(1)] by simp
      with Cons.IH [OF Cons.prems] show ?thesis
        using Pop Nil by (auto split: prod.splits)
    next
      case (Cons y ys)
      with Cons.prems pop_ok [OF assms(1), of q y ys mf]
      obtain q1 where q1: "pop mf N q = (Some y, q1)" "holds N q1 ys" by blast
      from Cons.IH [OF q1(2)] show ?thesis
        using Pop Cons q1(1) by (auto split: prod.splits)
    qed
  qed
qed

lemma fifo_spec_order:
  "fifo_spec cap xs cs = (rs, ys) \<Longrightarrow> xs @ pushed_values cs rs = popped_values rs @ ys"
proof (induction cs arbitrary: xs rs ys)
  case Nil
  then show ?case by simp
next
  case (Cons c cs)
  show ?case
  proof (cases c)
    case (Push v)
    show ?thesis
    proof (cases "length xs < cap")
      case True
      obtain rs1 where r1: "fifo_spec cap (xs @ [v]) cs = (rs1, ys)" "rs = PushResult True # rs1"
        using Cons.prems Push True by (auto split: prod.splits)
      from Cons.IH [OF r1(1)] show ?thesis using Push r1(2) by simp
    next
      case False
      obtain rs1 where r1: "fifo_spec cap xs cs = (rs1, ys)" "rs = PushResult False # rs1"
        using Cons.prems Push False by (auto split: prod.splits)
      from Cons.IH [OF r1(1)] show ?thesis using Push r1(2) by simp
    qed
  next
    case Pop
    show ?thesis
    proof (cases xs)
      case Nil
      obtain rs1 where r1: "fifo_spec cap [] cs = (rs1, ys)" "rs = PopResult None # rs1"
        using Cons.prems Pop Nil by (auto split: prod.splits)
      from Cons.IH [OF r1(1)] show ?thesis using Pop Nil r1(2) by simp
    next
      case (Cons y xs')
      obtain rs1 where r1: "fifo_spec cap xs' cs = (rs1, ys)" "rs = PopResult (Some y) # rs1"
        using Cons.prems Pop Cons by (auto split: prod.splits)
      from Cons.IH [OF r1(1)] show ?thesis using Pop Cons r1(2) by simp
    qed
  qed
qed

lemma holds_nil_empty:
  assumes "valid_size N" "holds N q []"
  shows "empty_q q" and "size_q N q = 0"
  using assms(2) by (simp_all add: holds_def empty_q_def size_q_def)

text \<open>
  Claim C1.  For every sequence of \<^verbatim>\<open>push\<close> and \<^verbatim>\<open>pop\<close> calls executed sequentially on a
  fresh queue, the values handed out by the successful pops are, in order, the first values
  accepted by the successful pushes: each successful pop returns the oldest accepted value
  not yet popped, without duplicates or gaps.  When as many values were popped as were
  accepted, the queue is empty (\<^verbatim>\<open>empty()\<close> holds and \<^verbatim>\<open>size()\<close> is 0).
\<close>

theorem spsc_fifo:
  assumes "valid_size N"
  shows "let rs = fst (run_queue mf N (SPSCQueue_new N d) cs);
             q' = snd (run_queue mf N (SPSCQueue_new N d) cs);
             pushed = pushed_values cs rs;
             popped = popped_values rs
         in popped = take (length popped) pushed \<and>
            (length popped = length pushed \<longrightarrow> empty_q q' \<and> size_q N q' = 0)"
proof -
  let ?sp = "fifo_spec (unat N - 1) [] cs"
  from run_queue_refines [OF assms holds_new [OF assms], of mf d cs]
  obtain q' where run: "run_queue mf N (SPSCQueue_new N d) cs = (fst ?sp, q')"
    and h: "holds N q' (snd ?sp)" by blast
  have "[] @ pushed_values cs (fst ?sp) = popped_values (fst ?sp) @ snd ?sp"
    by (rule fifo_spec_order) simp
  then have ord: "pushed_values cs (fst ?sp) = popped_values (fst ?sp) @ snd ?sp" by simp
  then have "popped_values (fst ?sp) = take (length (popped_values (fst ?sp))) (pushed_values cs (fst ?sp))"
    by simp
  moreover have "empty_q q' \<and> size_q N q' = 0"
    if "length (popped_values (fst ?sp)) = length (pushed_values cs (fst ?sp))"
  proof -
    from ord have "length (pushed_values cs (fst ?sp)) =
        length (popped_values (fst ?sp)) + length (snd ?sp)"
      by (metis length_append)
    with that have "snd ?sp = []" by simp
    with h have "holds N q' []" by simp
    then show ?thesis using holds_nil_empty [OF assms] by blast
  qed
  ultimately show ?thesis using run by (simp add: Let_def)
qed



theorem spsc_fifo_witness:
  "valid_size 4 \<and>
   (let cs = [Push (10::nat), Push 20, Pop, Push 30, Pop, Pop];
        rs = fst (run_queue id 4 (SPSCQueue_new 4 0) cs);
        q' = snd (run_queue id 4 (SPSCQueue_new 4 0) cs)
    in popped_values rs = [10, 20, 30] \<and> pushed_values cs rs = [10, 20, 30] \<and> empty_q q')"
  using spsc_fifo [of 4 id 0 "[Push (10::nat), Push 20, Pop, Push 30, Pop, Pop]"]
  by (simp add: valid_size_def Let_def push_def pop_def MASK_def SPSCQueue_new_def empty_q_def)


subsection \<open>Binary64 rounding\<close>

text \<open>Rounding is monotone, exact on binary64 values, and has relative error at most \<open>2\<^sup>-\<^sup>5\<^sup>3\<close>.\<close>

lemma rhe_floor_le: "\<lfloor>q\<rfloor> \<le> round_half_even q"
  by (simp add: round_half_even_def Let_def)

lemma rhe_le_floor1: "round_half_even q \<le> \<lfloor>q\<rfloor> + 1"
  by (simp add: round_half_even_def Let_def)

lemma rhe_of_int: "round_half_even (of_int k) = k"
  by (simp add: round_half_even_def Let_def)

lemma rhe_mono:
  assumes "q \<le> r"
  shows "round_half_even q \<le> round_half_even r"
proof (cases "\<lfloor>q\<rfloor> = \<lfloor>r\<rfloor>")
  case True
  then show ?thesis using assms
    by (auto simp: round_half_even_def Let_def)
next
  case False
  moreover have "\<lfloor>q\<rfloor> \<le> \<lfloor>r\<rfloor>" using assms by (rule floor_mono)
  ultimately have "\<lfloor>q\<rfloor> + 1 \<le> \<lfloor>r\<rfloor>" by simp
  with rhe_le_floor1 [of q] rhe_floor_le [of r] show ?thesis by linarith
qed

lemma rhe_error: "real_of_int (round_half_even q) \<le> q + 1 / 2"
  unfolding round_half_even_def Let_def
  by (auto simp: not_less) linarith+

lemma rhe_ge:
  assumes "of_int a \<le> q"
  shows "a \<le> round_half_even q"
  using rhe_mono [OF assms] by (simp add: rhe_of_int)

lemma rhe_le:
  assumes "q \<le> of_int b"
  shows "round_half_even q \<le> b"
  using rhe_mono [OF assms] by (simp add: rhe_of_int)


lemma two_powr_int_add: "2 powr of_int (a + b) = 2 powr of_int a * (2 powr of_int b :: real)"
  by (simp add: powr_add)

lemma two_powr_53: "2 powr of_int (e + 1) = 2 ^ 53 * (2 powr of_int (e - 52) :: real)"
proof -
  have "e + 1 = 53 + (e - 52)" by simp
  then have "2 powr of_int (e + 1) = 2 powr of_int 53 * (2 powr of_int (e - 52) :: real)"
    by (simp only: two_powr_int_add)
  then show ?thesis by simp
qed

lemma two_powr_52: "2 powr of_int e = 2 ^ 52 * (2 powr of_int (e - 52) :: real)"
proof -
  have "e = 52 + (e - 52)" by simp
  then have "2 powr of_int e = 2 powr of_int 52 * (2 powr of_int (e - 52) :: real)"
    by (metis two_powr_int_add)
  then show ?thesis by simp
qed

lemma double_ulp_pos: "0 < double_ulp x"
  by (simp add: double_ulp_def)

lemma double_exponent_ge: "- 1022 \<le> double_exponent x"
  by (simp add: double_exponent_def)

lemma double_exponent_upper:
  assumes "0 < x"
  shows "x < 2 powr of_int (double_exponent x + 1)"
proof -
  have "x < 2 powr of_int (\<lfloor>log 2 x\<rfloor> + 1)"
    using floor_log_eq_powr_iff [of x 2 "\<lfloor>log 2 x\<rfloor>"] assms by simp
  also have "\<dots> \<le> 2 powr of_int (double_exponent x + 1)"
    using assms by (simp add: double_exponent_def)
  finally show ?thesis .
qed

lemma double_exponent_lower:
  assumes "0 < x" "- 1022 < double_exponent x"
  shows "2 powr of_int (double_exponent x) \<le> x"
proof -
  from assms have "double_exponent x = \<lfloor>log 2 x\<rfloor>" by (simp add: double_exponent_def max_def split: if_splits)
  then show ?thesis using floor_log_eq_powr_iff [of x 2 "\<lfloor>log 2 x\<rfloor>"] assms(1) by simp
qed

lemma double_exponent_normal:
  assumes "2 powr (- 1022) \<le> x"
  shows "2 powr of_int (double_exponent x) \<le> x"
proof -
  have pos: "0 < x" using assms by (rule less_le_trans [rotated]) simp
  show ?thesis
  proof (cases "- 1022 < double_exponent x")
    case True
    then show ?thesis using pos by (rule double_exponent_lower [rotated])
  next
    case False
    then have "double_exponent x = - 1022" using double_exponent_ge [of x] by simp
    then show ?thesis using assms by simp
  qed
qed

lemma double_exponent_mono:
  assumes "0 < x" "x \<le> y"
  shows "double_exponent x \<le> double_exponent y"
proof -
  have "log 2 x \<le> log 2 y" using assms by simp
  then have "\<lfloor>log 2 x\<rfloor> \<le> \<lfloor>log 2 y\<rfloor>" by (rule floor_mono)
  then show ?thesis using assms by (simp add: double_exponent_def)
qed

lemma round_double_nonneg:
  assumes "0 \<le> x"
  shows "0 \<le> round_double x"
proof (cases "x = 0")
  case True
  then show ?thesis by (simp add: round_double_def)
next
  case False
  have "of_int 0 \<le> x / double_ulp x" using assms double_ulp_pos [of x] by simp
  then have "0 \<le> round_half_even (x / double_ulp x)" by (rule rhe_ge)
  then show ?thesis using False double_ulp_pos [of x] by (simp add: round_double_def)
qed

lemma round_double_upper:
  assumes "0 < x"
  shows "round_double x \<le> 2 powr of_int (double_exponent x + 1)"
proof -
  let ?u = "double_ulp x"
  have "x \<le> 2 ^ 53 * ?u"
    using double_exponent_upper [OF assms] two_powr_53 [of "double_exponent x"]
    by (simp add: double_ulp_def)
  then have "x / ?u \<le> of_int (2 ^ 53)"
    using double_ulp_pos [of x] by (simp add: divide_le_eq)
  then have "round_half_even (x / ?u) \<le> 2 ^ 53" by (rule rhe_le)
  then have "real_of_int (round_half_even (x / ?u)) \<le> 2 ^ 53"
    by (metis of_int_le_iff of_int_numeral of_int_power)
  then have "real_of_int (round_half_even (x / ?u)) * ?u \<le> 2 ^ 53 * ?u"
    using double_ulp_pos [of x] by (simp add: mult_right_mono)
  then show ?thesis using assms two_powr_53 [of "double_exponent x"]
    by (simp add: round_double_def double_ulp_def)
qed

lemma round_double_lower:
  assumes "0 < x" "2 powr of_int (double_exponent x) \<le> x"
  shows "2 powr of_int (double_exponent x) \<le> round_double x"
proof -
  let ?u = "double_ulp x"
  have "2 ^ 52 * ?u \<le> x"
    using assms(2) two_powr_52 [of "double_exponent x"] by (simp add: double_ulp_def)
  then have "of_int (2 ^ 52) \<le> x / ?u"
    using double_ulp_pos [of x] by (simp add: le_divide_eq)
  then have "2 ^ 52 \<le> round_half_even (x / ?u)" by (rule rhe_ge)
  then have "2 ^ 52 \<le> real_of_int (round_half_even (x / ?u))"
    by (metis of_int_le_iff of_int_numeral of_int_power)
  then have "2 ^ 52 * ?u \<le> real_of_int (round_half_even (x / ?u)) * ?u"
    using double_ulp_pos [of x] by (simp add: mult_right_mono)
  then show ?thesis using assms two_powr_52 [of "double_exponent x"]
    by (simp add: round_double_def double_ulp_def)
qed

lemma round_double_mono:
  assumes "0 \<le> x" "x \<le> y"
  shows "round_double x \<le> round_double y"
proof (cases "x = 0")
  case True
  then show ?thesis using round_double_nonneg [of y] assms by (simp add: round_double_def)
next
  case False
  then have x: "0 < x" and y: "0 < y" using assms by simp_all
  show ?thesis
  proof (cases "double_exponent x = double_exponent y")
    case True
    then have u: "double_ulp x = double_ulp y" by (simp add: double_ulp_def)
    have "x / double_ulp y \<le> y / double_ulp y"
      using assms(2) double_ulp_pos [of y] by (simp add: divide_right_mono)
    then have "round_half_even (x / double_ulp y) \<le> round_half_even (y / double_ulp y)"
      by (rule rhe_mono)
    then have "real_of_int (round_half_even (x / double_ulp y)) * double_ulp y \<le>
        real_of_int (round_half_even (y / double_ulp y)) * double_ulp y"
      using double_ulp_pos [of y] by (simp add: mult_right_mono)
    then show ?thesis using x y u by (simp add: round_double_def)
  next
    case False
    with double_exponent_mono [OF x assms(2)]
    have lt: "double_exponent x + 1 \<le> double_exponent y" by simp
    then have "- 1022 < double_exponent y" using double_exponent_ge [of x] by simp
    from double_exponent_lower [OF y this]
    have "2 powr of_int (double_exponent y) \<le> round_double y"
      by (rule round_double_lower [OF y])
    moreover have "2 powr of_int (double_exponent x + 1) \<le> (2 powr of_int (double_exponent y) :: real)"
      using lt by simp
    ultimately show ?thesis using round_double_upper [OF x] by linarith
  qed
qed


lemma round_double_exact:
  assumes "0 < m" "m < 2 ^ 53" "- 1074 \<le> k"
  shows "round_double (of_int m * 2 powr of_int k) = of_int m * 2 powr of_int k"
proof -
  define x :: real where "x = of_int m * 2 powr of_int k"
  have pos: "0 < x" using assms(1) by (simp add: x_def)
  have "real_of_int m < 2 ^ 53" using assms(2) by (metis of_int_less_iff of_int_numeral of_int_power)
  then have "x < 2 ^ 53 * 2 powr of_int k" by (simp add: x_def)
  also have "\<dots> = 2 powr of_int (53 + k)" by (simp add: powr_add)
  finally have up: "x < 2 powr of_int (53 + k)" .
  have "2 powr of_int \<lfloor>log 2 x\<rfloor> \<le> x"
    using floor_log_eq_powr_iff [of x 2 "\<lfloor>log 2 x\<rfloor>"] pos by simp
  with up have "2 powr of_int \<lfloor>log 2 x\<rfloor> < (2 powr of_int (53 + k) :: real)" by linarith
  then have "\<lfloor>log 2 x\<rfloor> < 53 + k" by simp
  then have e: "double_exponent x - 52 \<le> k"
    using assms(3) pos by (simp add: double_exponent_def)
  define n where "n = nat (k - (double_exponent x - 52))"
  have k: "k = int n + (double_exponent x - 52)" using e by (simp add: n_def)
  have "2 powr of_int k = 2 powr of_int (int n) * (2 powr of_int (double_exponent x - 52) :: real)"
    by (subst k) (simp only: two_powr_int_add)
  also have "2 powr of_int (int n) = (2 ^ n :: real)" by (simp add: powr_realpow)
  finally have pk0: "2 powr of_int k = 2 ^ n * double_ulp x" by (simp add: double_ulp_def)
  define u where "u = double_ulp x"
  have upos: "0 < u" unfolding u_def by (rule double_ulp_pos)
  have pk: "2 powr of_int k = 2 ^ n * u" using pk0 by (simp only: u_def)
  have xu: "x = of_int (m * 2 ^ n) * u" by (simp add: x_def pk)
  then have "x / u = of_int (m * 2 ^ n)" using upos by simp
  then have "round_half_even (x / u) = m * 2 ^ n" by (simp only: rhe_of_int)
  then have "round_double x = of_int (m * 2 ^ n) * u"
    using pos by (simp add: round_double_def u_def)
  with xu have "round_double x = x" by simp
  then show ?thesis by (simp only: x_def)
qed

lemma round_double_int:
  assumes "0 \<le> m" "m \<le> 2 ^ 53"
  shows "round_double (of_int m) = of_int m"
proof -
  consider "m = 0" | "0 < m" "m < 2 ^ 53" | "m = 2 ^ 53" using assms by linarith
  then show ?thesis
  proof cases
    case 1
    then show ?thesis by (simp add: round_double_def)
  next
    case 2
    from round_double_exact [OF 2, of 0] show ?thesis by simp
  next
    case 3
    from round_double_exact [of 1 53] have "round_double (2 powr 53) = 2 powr 53" by simp
    then show ?thesis using 3 by simp
  qed
qed

lemma round_double_nat:
  assumes "n \<le> 2 ^ 53"
  shows "round_double (real n) = real n"
proof -
  have "int n \<le> 2 ^ 53" using assms by (metis of_nat_le_iff of_nat_numeral of_nat_power)
  from round_double_int [OF _ this] show ?thesis by simp
qed

lemma round_double_rel_upper:
  assumes "2 powr (- 1022) \<le> x"
  shows "round_double x \<le> x * (1 + 1 / 2 ^ 53)"
proof -
  have pos: "0 < x" using assms by (rule less_le_trans [rotated]) simp
  let ?u = "double_ulp x"
  have "real_of_int (round_half_even (x / ?u)) \<le> x / ?u + 1 / 2" by (rule rhe_error)
  then have "real_of_int (round_half_even (x / ?u)) * ?u \<le> (x / ?u + 1 / 2) * ?u"
    using double_ulp_pos [of x] by (simp add: mult_right_mono)
  also have "\<dots> = x + ?u / 2" using double_ulp_pos [of x] by (simp add: field_simps)
  finally have a: "round_double x \<le> x + ?u / 2" using pos by (simp add: round_double_def)
  have "2 ^ 52 * ?u \<le> x"
    using double_exponent_normal [OF assms] two_powr_52 [of "double_exponent x"]
    by (simp add: double_ulp_def)
  then have "?u / 2 \<le> x / 2 ^ 53" by simp
  with a show ?thesis by (simp add: algebra_simps)
qed

lemma rhe_error_lower: "q - 1 / 2 \<le> real_of_int (round_half_even q)"
  unfolding round_half_even_def Let_def
  by (auto simp: not_less) linarith+

lemma round_double_rel_lower:
  assumes "2 powr (- 1022) \<le> x"
  shows "x * (1 - 1 / 2 ^ 53) \<le> round_double x"
proof -
  have pos: "0 < x" using assms by (rule less_le_trans [rotated]) simp
  let ?u = "double_ulp x"
  have "x / ?u - 1 / 2 \<le> real_of_int (round_half_even (x / ?u))" by (rule rhe_error_lower)
  then have "(x / ?u - 1 / 2) * ?u \<le> real_of_int (round_half_even (x / ?u)) * ?u"
    using double_ulp_pos [of x] by (simp add: mult_right_mono)
  moreover have "(x / ?u - 1 / 2) * ?u = x - ?u / 2"
    using double_ulp_pos [of x] by (simp add: field_simps)
  ultimately have a: "x - ?u / 2 \<le> round_double x" using pos by (simp add: round_double_def)
  have "2 ^ 52 * ?u \<le> x"
    using double_exponent_normal [OF assms] two_powr_52 [of "double_exponent x"]
    by (simp add: double_ulp_def)
  then have "?u / 2 \<le> x / 2 ^ 53" by simp
  with a show ?thesis by (simp add: algebra_simps)
qed

lemma double_exponent_eq:
  assumes "2 powr of_int e \<le> x" "x < 2 powr of_int (e + 1)" "- 1022 \<le> e"
  shows "double_exponent x = e"
proof -
  have pos: "0 < x" using assms(1) by (rule less_le_trans [rotated]) simp
  have "\<lfloor>log 2 x\<rfloor> = e"
    using floor_log_eq_powr_iff [of x 2 e] pos assms(1,2) by simp
  then show ?thesis using pos assms(3) by (simp add: double_exponent_def)
qed

lemma round_double_at:
  assumes "2 powr of_int e \<le> x" "x < 2 powr of_int (e + 1)" "- 1022 \<le> e"
  shows "round_double x =
    real_of_int (round_half_even (x / 2 powr of_int (e - 52))) * 2 powr of_int (e - 52)"
proof -
  have pos: "0 < x" using assms(1) by (rule less_le_trans [rotated]) simp
  then show ?thesis
    by (simp add: round_double_def double_ulp_def double_exponent_eq [OF assms])
qed

lemma double_exponent_subnormal:
  assumes "0 < x" "x < 2 powr (- 1022)"
  shows "double_exponent x = - 1022"
proof -
  have "log 2 x < - 1022"
    using assms by (simp add: log_less_iff)
  then have "\<lfloor>log 2 x\<rfloor> < - 1022" by linarith
  then show ?thesis using assms(1) by (simp add: double_exponent_def)
qed

lemma round_double_underflow:
  assumes "0 \<le> x" "x \<le> 2 powr (- 1075)"
  shows "round_double x = 0"
proof (cases "x = 0")
  case True
  then show ?thesis by (simp add: round_double_def)
next
  case False
  then have pos: "0 < x" using assms(1) by simp
  have "(2 powr (- 1075) :: real) < 2 powr (- 1022)" by simp
  with assms(2) have "x < 2 powr (- 1022)" by linarith
  from double_exponent_subnormal [OF pos this]
  have u: "double_ulp x = 2 powr (- 1074)" by (simp add: double_ulp_def)
  have "(2 powr (- 1074) :: real) = 2 powr (- 1075 + 1)" by simp
  also have "\<dots> = 2 powr (- 1075) * 2" by (simp only: powr_add powr_one)
  finally have "x \<le> 2 powr (- 1074) / 2" using assms(2) by simp
  define q where "q = x / 2 powr (- 1074)"
  have q: "q \<le> 1 / 2" using \<open>x \<le> 2 powr (- 1074) / 2\<close> by (simp add: q_def divide_le_eq)
  have q0: "0 < q" using pos by (simp add: q_def)
  have fl: "\<lfloor>q\<rfloor> = 0" using q q0 by (intro floor_unique) simp_all
  have "round_half_even q = 0"
    using q by (simp add: round_half_even_def Let_def fl)
  then show ?thesis using False by (simp add: round_double_def u q_def)
qed

text \<open>Conversions of 64-bit counters, and some exact values.\<close>

lemma u2d_nonneg: "0 \<le> uint64_to_double c"
  unfolding uint64_to_double_def by (rule round_double_nonneg) (rule of_nat_0_le_iff)

lemma u2d_mono:
  assumes "a \<le> b"
  shows "uint64_to_double a \<le> uint64_to_double b"
proof -
  have "unat a \<le> unat b" using assms by (simp add: word_le_nat_alt)
  then have "real (unat a) \<le> real (unat b)" by (rule iffD2 [OF of_nat_le_iff])
  moreover have "0 \<le> real (unat a)" by (rule of_nat_0_le_iff)
  ultimately show ?thesis unfolding uint64_to_double_def by (rule round_double_mono [rotated])
qed

lemma u2d_exact:
  assumes "unat c \<le> 2 ^ 53"
  shows "uint64_to_double c = real (unat c)"
  unfolding uint64_to_double_def using assms by (rule round_double_nat)

lemma u2d_one: "uint64_to_double 1 = 1"
  using u2d_exact [of 1] by simp

lemma u2d_zero: "uint64_to_double 0 = 0"
  using u2d_exact [of 0] by simp

lemma u2d_ge_one:
  assumes "c \<noteq> 0"
  shows "1 \<le> uint64_to_double c"
proof -
  have "1 \<le> c" using assms by (simp add: word_le_nat_alt unat_gt_0 Suc_leI)
  from u2d_mono [OF this] show ?thesis by (simp add: u2d_one)
qed

lemma round_double_1: "round_double 1 = 1"
  using round_double_nat [of 1] by simp

lemma round_double_0: "round_double 0 = 0"
  by (simp add: round_double_def)

lemma round_double_2_53: "round_double (2 ^ 53) = 2 ^ 53"
  using round_double_int [of "2 ^ 53"] by simp

lemma round_double_2_64: "round_double (2 ^ 64) = 2 ^ 64"
  using round_double_exact [of 1 64] by simp

lemma round_double_pow2:
  assumes "- 1074 \<le> k"
  shows "round_double (2 powr of_int k) = 2 powr of_int k"
  using round_double_exact [of 1 k] assms by simp

lemma tiny_le: "(2 powr (- 1022) :: real) \<le> 1 / 2 ^ 64"
proof -
  have "(2 powr (- 1022) :: real) \<le> 2 powr (- 64)" by (rule powr_mono) simp_all
  also have "\<dots> = 1 / 2 ^ 64" by (simp add: powr_minus_divide)
  finally show ?thesis .
qed

lemma normal_ge:
  fixes x :: real
  assumes "1 / 2 ^ 64 \<le> x"
  shows "2 powr (- 1022) \<le> x"
  using tiny_le assms by (rule order_trans)

subsection \<open>Online estimators and signal rules\<close>

lemma welford_step:
  fixes S Q x a :: real
  assumes "0 < a"
  shows "Q - S\<^sup>2 / a + (x - S / a) * (x - (S / a + (x - S / a) / (a + 1))) =
         Q + x\<^sup>2 - (S + x)\<^sup>2 / (a + 1)"
proof -
  have n: "a \<noteq> 0" "a + 1 \<noteq> 0" using assms by simp_all
  have "(x - S / a) * (x - (S / a + (x - S / a) / (a + 1))) = S\<^sup>2 / a + x\<^sup>2 - (S + x)\<^sup>2 / (a + 1)"
    using n apply (simp add: divide_simps power2_eq_square)
    apply algebra
    done
  then show ?thesis by simp
qed

lemma welford_mean_step:
  fixes S x a :: real
  assumes "0 < a"
  shows "S / a + (x - S / a) / (a + 1) = (S + x) / (a + 1)"
proof -
  have n: "a \<noteq> 0" "a + 1 \<noteq> 0" using assms by simp_all
  show ?thesis using n apply (simp add: divide_simps) apply algebra done
qed

lemma welford_invariant:
  assumes "length xs < 2 ^ 64"
  shows "rs_count (foldl RollingStats_add RollingStats_new xs) = of_nat (length xs) \<and>
         rs_mean (foldl RollingStats_add RollingStats_new xs) = sum_list xs / real (length xs) \<and>
         rs_m2 (foldl RollingStats_add RollingStats_new xs) =
           sum_sq xs - (sum_list xs)\<^sup>2 / real (length xs)"
  using assms
proof (induction xs rule: rev_induct)
  case Nil
  then show ?case by (simp add: RollingStats_new_def sum_sq_def)
next
  case (snoc x xs)
  define s where "s = foldl RollingStats_add RollingStats_new xs"
  define n where "n = length xs"
  from snoc.prems have lt: "n < 2 ^ 64" and lt': "Suc n < 2 ^ 64" by (simp_all add: n_def)
  from snoc.IH have c: "rs_count s = of_nat n"
    and m: "rs_mean s = sum_list xs / real n"
    and q: "rs_m2 s = sum_sq xs - (sum_list xs)\<^sup>2 / real n"
    using lt by (simp_all add: s_def n_def)
  have "rs_count s + 1 = (of_nat (Suc n) :: size_t)" using c by simp
  then have "unat (rs_count s + 1) = Suc n"
    using lt' by (simp only: unat_of_nat) simp
  then have u: "to_double (rs_count s + 1) = real n + 1"
    by (simp add: to_double_def)
  have step: "foldl RollingStats_add RollingStats_new (xs @ [x]) = RollingStats_add s x"
    by (simp add: s_def)
  have sq: "sum_sq (xs @ [x]) = sum_sq xs + x\<^sup>2" by (simp add: sum_sq_def)
  have "rs_count (RollingStats_add s x) = of_nat (Suc n)"
    using c by (simp add: RollingStats_add_def Let_def)
  moreover have "rs_mean (RollingStats_add s x) = (sum_list xs + x) / real (Suc n)"
  proof (cases "n = 0")
    case True
    then show ?thesis using m u by (simp add: RollingStats_add_def Let_def n_def)
  next
    case False
    then have "0 < real n" by simp
    from welford_mean_step [OF this, of "sum_list xs" x] show ?thesis
      using m u by (simp add: RollingStats_add_def Let_def add.commute)
  qed
  moreover have "rs_m2 (RollingStats_add s x) =
      sum_sq xs + x\<^sup>2 - (sum_list xs + x)\<^sup>2 / real (Suc n)"
  proof (cases "n = 0")
    case True
    then show ?thesis using m q u by (simp add: RollingStats_add_def Let_def n_def sum_sq_def)
  next
    case False
    then have "0 < real n" by simp
    from welford_step [OF this, of "sum_sq xs" "sum_list xs" x] show ?thesis
      using m q u by (simp add: RollingStats_add_def Let_def add.commute)
  qed
  ultimately show ?case
    unfolding step sq by (simp add: n_def)
qed

lemma sum_sq_dev:
  fixes xs :: "real list"
  shows "(\<Sum>x\<leftarrow>xs. (x - m)\<^sup>2) = sum_sq xs - 2 * m * sum_list xs + real (length xs) * m\<^sup>2"
  by (induction xs) (simp_all add: sum_sq_def power2_eq_square algebra_simps)

lemma sum_sq_dev_mean:
  fixes xs :: "real list"
  assumes "xs \<noteq> []"
  shows "(\<Sum>x\<leftarrow>xs. (x - sum_list xs / real (length xs))\<^sup>2) =
         sum_sq xs - (sum_list xs)\<^sup>2 / real (length xs)"
proof -
  have n: "real (length xs) \<noteq> 0" using assms by simp
  show ?thesis unfolding sum_sq_dev using n
    by (simp add: field_simps power2_eq_square)
qed

lemma to_double_nonneg: "0 \<le> to_double c"
  unfolding to_double_def by (rule of_nat_0_le_iff)

lemma variance_nonneg:
  assumes "length xs < 2 ^ 64"
  shows "0 \<le> RollingStats_variance (foldl RollingStats_add RollingStats_new xs)"
proof (cases "xs = []")
  case True
  then show ?thesis by (simp add: RollingStats_variance_def RollingStats_new_def)
next
  case False
  from welford_invariant [OF assms] sum_sq_dev_mean [OF False]
  have "rs_m2 (foldl RollingStats_add RollingStats_new xs) =
      (\<Sum>x\<leftarrow>xs. (x - sum_list xs / real (length xs))\<^sup>2)" by simp
  also have "\<dots> \<ge> 0" by (intro sum_list_nonneg) auto
  finally show ?thesis by (simp add: RollingStats_variance_def to_double_nonneg)
qed

text \<open>
  Claim C3.  After adding \<open>x\<^sub>1 \<dots> x\<^sub>n\<close> to a fresh \<^verbatim>\<open>RollingStats\<close>, \<^verbatim>\<open>mean()\<close> is
  the arithmetic mean \<open>(\<Sum> x\<^sub>i) / n\<close> and, for \<open>n > 1\<close>, \<^verbatim>\<open>variance()\<close> is the sample
  variance \<open>(\<Sum> (x\<^sub>i - mean)\<^sup>2) / (n - 1)\<close>; for \<open>n \<le> 1\<close> the variance is 0.  This is
  under exact arithmetic, for every sequence that the 64-bit observation counter can
  count.
\<close>

theorem welford_correct:
  assumes "length xs < 2 ^ 64"
  shows "let s = foldl RollingStats_add RollingStats_new xs;
             n = length xs;
             \<mu> = sum_list xs / real n
         in (0 < n \<longrightarrow> RollingStats_mean s = \<mu>) \<and>
            (n = 0 \<longrightarrow> RollingStats_mean s = 0) \<and>
            (1 < n \<longrightarrow> RollingStats_variance s = (\<Sum>x\<leftarrow>xs. (x - \<mu>)\<^sup>2) / real (n - 1)) \<and>
            (n \<le> 1 \<longrightarrow> RollingStats_variance s = 0)"
proof -
  define s where "s = foldl RollingStats_add RollingStats_new xs"
  define n where "n = length xs"
  from welford_invariant [OF assms] have c: "rs_count s = of_nat n"
    and m: "rs_mean s = sum_list xs / real n"
    and q: "rs_m2 s = sum_sq xs - (sum_list xs)\<^sup>2 / real n"
    by (simp_all add: s_def n_def)
  have un: "unat (rs_count s) = n" using c assms by (simp add: unat_of_nat n_def)
  have gt: "rs_count s > 1 \<longleftrightarrow> 1 < n" using un by (simp add: word_less_nat_alt)
  have mean0: "n = 0 \<longrightarrow> RollingStats_mean s = 0" using m by (simp add: RollingStats_mean_def)
  have mean1: "RollingStats_mean s = sum_list xs / real n" using m by (simp add: RollingStats_mean_def)
  have var0: "n \<le> 1 \<longrightarrow> RollingStats_variance s = 0"
    using gt by (simp add: RollingStats_variance_def)
  have var1: "RollingStats_variance s = (\<Sum>x\<leftarrow>xs. (x - sum_list xs / real n)\<^sup>2) / real (n - 1)" if "1 < n"
  proof -
    from that have ne: "xs \<noteq> []" by (auto simp: n_def)
    have "rs_count s \<noteq> 0" using un that by auto
    then have "unat (rs_count s - 1) = n - 1" using un by (simp add: unat_minus_one)
    then have "to_double (rs_count s - 1) = real (n - 1)" by (simp add: to_double_def)
    then show ?thesis using that gt q sum_sq_dev_mean [OF ne]
      by (simp add: RollingStats_variance_def n_def)
  qed
  show ?thesis
    unfolding Let_def s_def [symmetric] n_def [symmetric]
    using mean0 mean1 var0 var1 by blast
qed



text \<open>The accumulators after the five pairs \<open>(x, 2x + 1)\<close>, \<open>x = 1 \<dots> 5\<close>.\<close>

lemma covar5: "covar_of [(1, 3), (2, 5), (3, 7), (4, 9), (5, 11)] =
   \<lparr>rc_mean_x = 3, rc_mean_y = 7, rc_c = 20, rc_m2_x = 10, rc_m2_y = 40, rc_count = 5\<rparr>"
  by (simp add: covar_of_def RollingCovar_add_def RollingCovar_new_def Let_def to_double_def)

text \<open>
  Claim C4.  After adding the five pairs \<open>(x, 2x + 1)\<close> for \<open>x = 1 \<dots> 5\<close> to a fresh
  \<^verbatim>\<open>RollingCovar\<close>: \<^verbatim>\<open>mean_x()\<close> is 3, \<^verbatim>\<open>mean_y()\<close> is 7, \<^verbatim>\<open>correlation()\<close> is 1
  and \<^verbatim>\<open>beta()\<close> is 2, exactly, under exact arithmetic.
\<close>

theorem covariance_ground_truth:
  "let s = covar_of [(1, 3), (2, 5), (3, 7), (4, 9), (5, 11)]
   in RollingCovar_mean_x s = 3 \<and> RollingCovar_mean_y s = 7 \<and>
      RollingCovar_correlation s = 1 \<and> RollingCovar_beta s = 2"
proof -
  have sq: "sqrt 25 = 5" using real_sqrt_abs [of 5] by simp
  show ?thesis
    unfolding covar5 Let_def
    by (simp add: RollingCovar_mean_x_def RollingCovar_mean_y_def RollingCovar_correlation_def
        RollingCovar_beta_def RollingCovar_covariance_def RollingCovar_variance_x_def
        RollingCovar_variance_y_def to_double_def sq)
qed













text \<open>The binary64 accumulators after \<^verbatim>\<open>add(0, 0)\<close> and \<^verbatim>\<open>add(2\<^sup>-\<^sup>3\<^sup>0\<^sup>0, 2\<^sup>-\<^sup>3\<^sup>0\<^sup>0)\<close>.\<close>

lemma covar_underflow_state:
  "covar_of_binary64 [(0, 0), (2 powr (- 300), 2 powr (- 300))] =
     \<lparr>rc_mean_x = 2 powr (- 301), rc_mean_y = 2 powr (- 301), rc_c = 2 powr (- 601),
      rc_m2_x = 2 powr (- 601), rc_m2_y = 2 powr (- 601), rc_count = 2\<rparr>"
proof -
  define a :: real where "a = 2 powr (- 300)"
  have half: "a / 2 = 2 powr (- 301)"
  proof -
    have "(2 powr (- 300) :: real) = 2 powr (- 301 + 1)" by simp
    also have "\<dots> = 2 powr (- 301) * 2" by (simp only: powr_add powr_one)
    finally show ?thesis by (simp add: a_def)
  qed
  have sq: "a * (a / 2) = 2 powr (- 601)"
  proof -
    have "a * (a / 2) = 2 powr (- 300) * 2 powr (- 301)" by (simp only: half) (simp only: a_def)
    also have "\<dots> = 2 powr (- 300 + - 301)" by (simp only: powr_add)
    finally show ?thesis by simp
  qed
  have r1: "round_double a = a" unfolding a_def using round_double_pow2 [of "- 300"] by simp
  have r2: "round_double (a / 2) = a / 2"
    unfolding half using round_double_pow2 [of "- 301"] by simp
  have r3: "round_double (a * a / 2) = a * a / 2"
    using round_double_pow2 [of "- 601"] sq by simp
  have u2: "uint64_to_double 2 = 2" using u2d_exact [of 2] by simp
  have "covar_of_binary64 [(0, 0), (a, a)] =
     \<lparr>rc_mean_x = a / 2, rc_mean_y = a / 2, rc_c = a * (a / 2),
      rc_m2_x = a * (a / 2), rc_m2_y = a * (a / 2), rc_count = 2\<rparr>"
    by (simp add: covar_of_binary64_def RollingCovar_add_binary64_def RollingCovar_new_def Let_def
        double_add_def double_sub_def double_mul_def double_div_def u2d_one u2 round_double_0
        r1 r2 r3)
  moreover have "a * 2 powr (- 301) = 2 powr (- 601)" using sq by (simp only: half)
  ultimately show ?thesis unfolding a_def [symmetric] by (simp only: half)
qed

text \<open>
  Claim C8 says that the accessors never divide by a non-positive quantity.  In binary64
  \<^verbatim>\<open>correlation()\<close> does: after \<^verbatim>\<open>add(0, 0)\<close> and \<^verbatim>\<open>add(2\<^sup>-\<^sup>3\<^sup>0\<^sup>0, 2\<^sup>-\<^sup>3\<^sup>0\<^sup>0)\<close> both variances are
  \<open>2\<^sup>-\<^sup>6\<^sup>0\<^sup>1\<close>, so the guard lets them pass, their product \<open>2\<^sup>-\<^sup>1\<^sup>2\<^sup>0\<^sup>2\<close> rounds to zero, and the
  covariance is divided by \<open>sqrt 0 = 0\<close>.
\<close>

theorem correlation_divides_by_zero:
  "let s = covar_of_binary64 [(0, 0), (2 powr (- 300), 2 powr (- 300))]
   in 0 < RollingCovar_variance_x_binary64 s \<and> 0 < RollingCovar_variance_y_binary64 s \<and>
      double_sqrt (double_mul (RollingCovar_variance_x_binary64 s)
        (RollingCovar_variance_y_binary64 s)) = 0 \<and>
      RollingCovar_correlation_binary64 s = None"
proof -
  define s where "s = covar_of_binary64 [(0, 0), (2 powr (- 300), 2 powr (- 300))]"
  have r: "round_double (2 powr (- 601)) = 2 powr (- 601)"
    using round_double_pow2 [of "- 601"] by simp
  have vx: "RollingCovar_variance_x_binary64 s = 2 powr (- 601)"
    and vy: "RollingCovar_variance_y_binary64 s = 2 powr (- 601)"
    unfolding s_def covar_underflow_state
    by (simp_all add: RollingCovar_variance_x_binary64_def RollingCovar_variance_y_binary64_def
        double_div_def u2d_one r)
  have "(2 powr (- 601) * 2 powr (- 601) :: real) = 2 powr (- 1202)"
    by (simp add: powr_add [symmetric])
  moreover have "(2 powr (- 1202) :: real) \<le> 2 powr (- 1075)" by (rule powr_mono) simp_all
  ultimately have "round_double (2 powr (- 601) * 2 powr (- 601)) = 0"
    by (intro round_double_underflow) simp_all
  then have d: "double_sqrt (double_mul (RollingCovar_variance_x_binary64 s)
        (RollingCovar_variance_y_binary64 s)) = 0"
    unfolding vx vy by (simp add: double_sqrt_def double_mul_def round_double_0)
  have pos: "(0 :: real) < 2 powr (- 601)" by simp
  have "RollingCovar_correlation_binary64 s = None"
    using d pos by (simp add: RollingCovar_correlation_binary64_def Let_def vx vy not_le)
  with d pos show ?thesis unfolding Let_def s_def [symmetric] vx vy by simp
qed


theorem welford_correct_witness:
  "length [1, 2, 3, 4 :: real] < 2 ^ 64 \<and>
   RollingStats_mean (foldl RollingStats_add RollingStats_new [1, 2, 3, 4]) = 5 / 2 \<and>
   RollingStats_variance (foldl RollingStats_add RollingStats_new [1, 2, 3, 4]) = 5 / 3"
proof -
  have h: "length [1, 2, 3, 4 :: real] < 2 ^ 64" by simp
  from welford_correct [OF h] show ?thesis
    by (simp add: Let_def power2_eq_square)
qed


subsection \<open>Latency histogram\<close>

declare find_bucket.simps [simp del]
declare percentile_scan.simps [simp del]

lemma index_cases_10:
  fixes i :: nat
  assumes "i \<le> 10"
  shows "i = 0 \<or> i = 1 \<or> i = 2 \<or> i = 3 \<or> i = 4 \<or> i = 5 \<or> i = 6 \<or> i = 7 \<or> i = 8 \<or> i = 9 \<or> i = 10"
  using assms by arith

lemma edges_word_le:
  assumes "i \<le> 10"
  shows "(word_of_int (BUCKET_EDGES ! i) :: uint64_t) \<le> 1000000"
  using index_cases_10 [OF assms] by (auto simp: BUCKET_EDGES_def)

lemma find_bucket_none:
  assumes "1000000 \<le> latency_us"
  shows "find_bucket latency_us i bucket = bucket"
  using assms
proof (induction latency_us i bucket rule: find_bucket.induct)
  case (1 l i bucket)
  show ?case
  proof (cases "i < NUM_BUCKETS")
    case True
    then have "i + 1 \<le> 10" by (simp add: NUM_BUCKETS_def)
    from edges_word_le [OF this] "1.prems"
    have ge: "\<not> l < word_of_int (BUCKET_EDGES ! (i + 1))"
      by (simp add: not_less)
    with "1.IH" [OF True ge "1.prems"] True show ?thesis
      by (subst find_bucket.simps) simp
  next
    case False
    then show ?thesis by (subst find_bucket.simps) simp
  qed
qed

text \<open>
  Claim C10.  For a sample at or beyond the last bucket edge (\<open>latency_us \<ge> 1000000\<close>) the
  bucket search finds no edge and leaves the bucket index at 0, so the sample is counted
  in the first bucket; the sample count, the latency sum, the minimum and the maximum are
  updated with the true value.
\<close>

theorem overflow_sample_first_bucket:
  assumes "1000000 \<le> latency_us"
  shows "find_bucket latency_us 0 0 = 0 \<and>
         (let h' = snd (LatencyHistogram_add_sample_us clk h latency_us)
          in lh_buckets h' = (lh_buckets h)[0 := lh_buckets h ! 0 + 1] \<and>
             lh_total_samples h' = lh_total_samples h + 1 \<and>
             lh_total_latency_us h' = lh_total_latency_us h + latency_us \<and>
             lh_min_latency_us h' = min (lh_min_latency_us h) latency_us \<and>
             lh_max_latency_us h' = max (lh_max_latency_us h) latency_us)"
  using find_bucket_none [OF assms, of 0 0]
  by (auto simp: LatencyHistogram_add_sample_us_def Let_def NUM_BUCKETS_def steady_clock_now_def
      min_def max_def split: prod.splits)

theorem overflow_sample_first_bucket_witness:
  "(1000000 :: uint64_t) \<le> 5000000 \<and>
   lh_buckets (snd (LatencyHistogram_add_sample_us (\<lambda>n. 0) LatencyHistogram_new 5000000)) =
     [1, 0, 0, 0, 0, 0, 0, 0, 0, 0] \<and>
   lh_min_latency_us (snd (LatencyHistogram_add_sample_us (\<lambda>n. 0) LatencyHistogram_new 5000000)) =
     5000000 \<and>
   lh_max_latency_us (snd (LatencyHistogram_add_sample_us (\<lambda>n. 0) LatencyHistogram_new 5000000)) =
     5000000 \<and>
   lh_total_latency_us (snd (LatencyHistogram_add_sample_us (\<lambda>n. 0) LatencyHistogram_new 5000000)) =
     5000000"
proof -
  have h: "(1000000 :: uint64_t) \<le> 5000000" by simp
  from overflow_sample_first_bucket [OF h, of "\<lambda>n. 0" LatencyHistogram_new] h
  show ?thesis
    by (simp add: Let_def LatencyHistogram_new_def LatencyHistogram_reset_def NUM_BUCKETS_def
        UINT64_MAX_def numeral_eq_Suc)
qed


subsection \<open>Histogram statistics\<close>

lemma edges_sorted: "sorted BUCKET_EDGES"
  by (simp add: BUCKET_EDGES_def)

lemma edges_mono:
  assumes "i \<le> j" "j \<le> 10"
  shows "real_of_int (BUCKET_EDGES ! i) \<le> real_of_int (BUCKET_EDGES ! j)"
proof -
  have "j < length BUCKET_EDGES" using assms(2) by (simp add: BUCKET_EDGES_def)
  from sorted_nth_mono [OF edges_sorted assms(1) this] show ?thesis by simp
qed

lemma edges_last: "real_of_int (BUCKET_EDGES ! 10) = 1000000"
  by (simp add: BUCKET_EDGES_def)

lemma drop_sum_step:
  fixes bs :: "uint64_t list"
  assumes "i < length bs"
  shows "sum_list (map unat (drop i bs)) = unat (bs ! i) + sum_list (map unat (drop (Suc i) bs))"
  using assms by (simp flip: Cons_nth_drop_Suc)

lemma find_bucket_lt: "find_bucket latency_us i 0 < 10"
proof (induction latency_us i "0 :: nat" rule: find_bucket.induct)
  case (1 l i)
  show ?case
  proof (cases "i < NUM_BUCKETS")
    case True
    show ?thesis
    proof (cases "l < word_of_int (BUCKET_EDGES ! (i + 1))")
      case lt: True
      with True show ?thesis
        by (subst find_bucket.simps) (simp add: NUM_BUCKETS_def)
    next
      case ge: False
      with True "1.hyps" show ?thesis
        by (subst find_bucket.simps) simp
    qed
  next
    case False
    then show ?thesis by (subst find_bucket.simps) simp
  qed
qed

lemma bucket_increment_sum:
  fixes bs :: "uint64_t list"
  assumes "b < length bs" "Suc (sum_list (map unat bs)) < 2 ^ 64"
  shows "sum_list (map unat (bs[b := bs ! b + 1])) = Suc (sum_list (map unat bs))"
proof -
  have mem: "unat (bs ! b) \<le> sum_list (map unat bs)"
    using assms(1) by (intro member_le_sum_list) simp_all
  then have "unat (bs ! b) + 1 < 2 ^ 64" using assms(2) by simp
  then have u: "unat (bs ! b + 1) = unat (bs ! b) + 1"
    by (simp add: unat_word_ariths)
  have "sum_list (map unat (bs[b := bs ! b + 1])) = sum_list ((map unat bs)[b := unat (bs ! b + 1)])"
    by (simp add: map_update)
  also have "\<dots> = sum_list (map unat bs) + unat (bs ! b + 1) - map unat bs ! b"
    using assms(1) by (simp add: sum_list_update)
  also have "\<dots> = Suc (sum_list (map unat bs))"
    using assms(1) mem u by simp
  finally show ?thesis .
qed

lemma sum_list_lower:
  fixes f :: "'a \<Rightarrow> nat"
  assumes "\<forall>x\<in>set xs. a \<le> f x"
  shows "length xs * a \<le> sum_list (map f xs)"
  using assms by (induction xs) (simp_all add: add_mono)

lemma sum_list_upper:
  fixes f :: "'a \<Rightarrow> nat"
  assumes "\<forall>x\<in>set xs. f x \<le> a"
  shows "sum_list (map f xs) \<le> length xs * a"
  using assms by (induction xs) (simp_all add: add_mono)

lemma word_of_int_mono:
  fixes a b :: int
  assumes "0 \<le> a" "a \<le> b" "b < 2 ^ 64"
  shows "(word_of_int a :: uint64_t) \<le> word_of_int b"
proof -
  have "uint (word_of_int a :: uint64_t) = a" "uint (word_of_int b :: uint64_t) = b"
    using assms by (simp_all add: uint_word_of_int)
  then show ?thesis using assms(2) by (simp add: word_le_def)
qed


lemma edge_values:
  assumes "i \<le> 10"
  shows "0 \<le> BUCKET_EDGES ! i" and "BUCKET_EDGES ! i \<le> 1000000"
  using index_cases_10 [OF assms] by (auto simp: BUCKET_EDGES_def)

lemma edge_width_exact:
  assumes "i < 10"
  shows "double_sub (real_of_int (BUCKET_EDGES ! (i + 1))) (real_of_int (BUCKET_EDGES ! i)) =
         real_of_int (BUCKET_EDGES ! (i + 1) - BUCKET_EDGES ! i)"
    and "0 \<le> BUCKET_EDGES ! (i + 1) - BUCKET_EDGES ! i"
proof -
  let ?w = "BUCKET_EDGES ! (i + 1) - BUCKET_EDGES ! i"
  have "BUCKET_EDGES ! i \<le> BUCKET_EDGES ! (i + 1)"
    using sorted_nth_mono [OF edges_sorted, of i "i + 1"] assms by (simp add: BUCKET_EDGES_def)
  then show w0: "0 \<le> ?w" by simp
  have "?w \<le> 1000000" using edge_values [of "i + 1"] edge_values [of i] assms by simp
  then have "?w \<le> 2 ^ 53" by simp
  from round_double_int [OF w0 this] show "double_sub (real_of_int (BUCKET_EDGES ! (i + 1)))
      (real_of_int (BUCKET_EDGES ! i)) = real_of_int ?w"
    by (simp add: double_sub_def)
qed

lemma edge_exact:
  assumes "i \<le> 10"
  shows "round_double (real_of_int (BUCKET_EDGES ! i)) = real_of_int (BUCKET_EDGES ! i)"
proof -
  have "BUCKET_EDGES ! i \<le> 2 ^ 53" using edge_values(2) [OF assms] by simp
  from round_double_int [OF edge_values(1) [OF assms] this] show ?thesis .
qed

text \<open>The position inside a bucket is between 0 and 1 and grows with the target count.\<close>

lemma position_bounds:
  fixes c t b :: uint64_t
  assumes "c \<le> t" "unat t \<le> unat c + unat b" "b \<noteq> 0"
  shows "0 \<le> double_div (uint64_to_double (t - ((c + b) - b))) (uint64_to_double b)"
    and "double_div (uint64_to_double (t - ((c + b) - b))) (uint64_to_double b) \<le> 1"
proof -
  have s: "(c + b) - b = c" by simp
  have bpos: "0 < uint64_to_double b" using u2d_ge_one [OF assms(3)] by simp
  have "unat (t - c) = unat t - unat c" using assms(1) by (rule unat_sub)
  then have "unat (t - c) \<le> unat b" using assms(2) by simp
  then have "t - c \<le> b" by (simp add: word_le_nat_alt)
  then have le: "uint64_to_double (t - c) \<le> uint64_to_double b" by (rule u2d_mono)
  have q0: "0 \<le> uint64_to_double (t - c) / uint64_to_double b"
    using u2d_nonneg [of "t - c"] bpos by simp
  have q1: "uint64_to_double (t - c) / uint64_to_double b \<le> 1"
    using le bpos by simp
  show "0 \<le> double_div (uint64_to_double (t - ((c + b) - b))) (uint64_to_double b)"
    unfolding s double_div_def using q0 by (rule round_double_nonneg)
  from round_double_mono [OF q0 q1]
  show "double_div (uint64_to_double (t - ((c + b) - b))) (uint64_to_double b) \<le> 1"
    unfolding s double_div_def by (simp add: round_double_1)
qed

lemma position_mono:
  fixes c t1 t2 b :: uint64_t
  assumes "c \<le> t1" "t1 \<le> t2" "b \<noteq> 0"
  shows "double_div (uint64_to_double (t1 - ((c + b) - b))) (uint64_to_double b) \<le>
         double_div (uint64_to_double (t2 - ((c + b) - b))) (uint64_to_double b)"
proof -
  have s: "(c + b) - b = c" by simp
  have bpos: "0 < uint64_to_double b" using u2d_ge_one [OF assms(3)] by simp
  have "c \<le> t2" using assms(1,2) by simp
  then have "unat (t2 - c) = unat t2 - unat c" by (rule unat_sub)
  moreover have "unat (t1 - c) = unat t1 - unat c" using assms(1) by (rule unat_sub)
  moreover have "unat t1 \<le> unat t2" using assms(2) by (simp add: word_le_nat_alt)
  ultimately have "unat (t1 - c) \<le> unat (t2 - c)" by simp
  then have "t1 - c \<le> t2 - c" by (simp add: word_le_nat_alt)
  then have "uint64_to_double (t1 - c) \<le> uint64_to_double (t2 - c)" by (rule u2d_mono)
  then have "uint64_to_double (t1 - c) / uint64_to_double b \<le>
      uint64_to_double (t2 - c) / uint64_to_double b"
    using bpos by (simp add: divide_right_mono)
  moreover have "0 \<le> uint64_to_double (t1 - c) / uint64_to_double b"
    using u2d_nonneg [of "t1 - c"] bpos by simp
  ultimately show ?thesis unfolding s double_div_def by (rule round_double_mono [rotated])
qed

text \<open>Interpolating at a position between 0 and 1 stays between the two edges.\<close>

lemma interpolate_bounds:
  assumes "i < 10" "0 \<le> pos" "pos \<le> 1"
  defines "v \<equiv> double_add (real_of_int (BUCKET_EDGES ! i))
      (double_mul pos (double_sub (real_of_int (BUCKET_EDGES ! (i + 1)))
         (real_of_int (BUCKET_EDGES ! i))))"
  shows "real_of_int (BUCKET_EDGES ! i) \<le> v" and "v \<le> real_of_int (BUCKET_EDGES ! (i + 1))"
proof -
  define lo hi where "lo = real_of_int (BUCKET_EDGES ! i)" and "hi = real_of_int (BUCKET_EDGES ! (i + 1))"
  define w where "w = hi - lo"
  have w: "double_sub hi lo = w" "0 \<le> w"
    using edge_width_exact [OF assms(1)] by (simp_all add: lo_def hi_def w_def)
  have lo0: "0 \<le> lo" using edge_values(1) [of i] assms(1) by (simp add: lo_def)
  have rlo: "round_double lo = lo" using edge_exact [of i] assms(1) by (simp add: lo_def)
  have rhi: "round_double hi = hi" using edge_exact [of "i + 1"] assms(1) by (simp add: hi_def)
  have rw: "round_double w = w" using w(1) by (simp add: double_sub_def w_def)
  have m0: "0 \<le> pos * w" using assms(2) w(2) by simp
  have m1: "pos * w \<le> w" using mult_right_mono [of pos 1 w] assms(3) w(2) by simp
  have d0: "0 \<le> double_mul pos w" unfolding double_mul_def using m0 by (rule round_double_nonneg)
  have d1: "double_mul pos w \<le> w"
    using round_double_mono [OF m0 m1] by (simp add: double_mul_def rw)
  have v: "v = round_double (lo + double_mul pos w)"
    unfolding v_def double_add_def lo_def [symmetric] hi_def [symmetric] w(1) ..
  have "round_double lo \<le> round_double (lo + double_mul pos w)"
    using lo0 d0 by (intro round_double_mono) simp_all
  then have "lo \<le> v" by (simp add: v rlo)
  then show "real_of_int (BUCKET_EDGES ! i) \<le> v" unfolding lo_def .
  have "round_double (lo + double_mul pos w) \<le> round_double hi"
    using lo0 d0 d1 by (intro round_double_mono) (simp_all add: w_def)
  then have "v \<le> hi" by (simp add: v rhi)
  then show "v \<le> real_of_int (BUCKET_EDGES ! (i + 1))" unfolding hi_def .
qed

lemma interpolate_mono:
  assumes "i < 10" "0 \<le> pos1" "pos1 \<le> pos2"
  shows "double_add (real_of_int (BUCKET_EDGES ! i))
           (double_mul pos1 (double_sub (real_of_int (BUCKET_EDGES ! (i + 1)))
              (real_of_int (BUCKET_EDGES ! i)))) \<le>
         double_add (real_of_int (BUCKET_EDGES ! i))
           (double_mul pos2 (double_sub (real_of_int (BUCKET_EDGES ! (i + 1)))
              (real_of_int (BUCKET_EDGES ! i))))"
proof -
  define lo hi where "lo = real_of_int (BUCKET_EDGES ! i)" and "hi = real_of_int (BUCKET_EDGES ! (i + 1))"
  define w where "w = hi - lo"
  have w: "double_sub hi lo = w" "0 \<le> w"
    using edge_width_exact [OF assms(1)] by (simp_all add: lo_def hi_def w_def)
  have lo0: "0 \<le> lo" using edge_values(1) [of i] assms(1) by (simp add: lo_def)
  have m0: "0 \<le> pos1 * w" using assms(2) w(2) by simp
  have m1: "pos1 * w \<le> pos2 * w" using assms(3) w(2) by (simp add: mult_right_mono)
  have d0: "0 \<le> double_mul pos1 w" unfolding double_mul_def using m0 by (rule round_double_nonneg)
  have d1: "double_mul pos1 w \<le> double_mul pos2 w"
    unfolding double_mul_def using m0 m1 by (rule round_double_mono)
  have "round_double (lo + double_mul pos1 w) \<le> round_double (lo + double_mul pos2 w)"
    using lo0 d0 d1 by (intro round_double_mono) simp_all
  then show ?thesis
    unfolding double_add_def lo_def [symmetric] hi_def [symmetric] w(1) .
qed


text \<open>The value returned from inside bucket \<open>i\<close> lies between the edges of the bucket.\<close>

lemma in_bucket_bounds:
  fixes c t b :: uint64_t
  assumes "i < 10" "c \<le> t" "unat t \<le> unat c + unat b" "b \<noteq> 0"
  defines "v \<equiv> double_add (real_of_int (BUCKET_EDGES ! i))
      (double_mul (double_div (uint64_to_double (t - ((c + b) - b))) (uint64_to_double b))
         (double_sub (real_of_int (BUCKET_EDGES ! (i + 1))) (real_of_int (BUCKET_EDGES ! i))))"
  shows "real_of_int (BUCKET_EDGES ! i) \<le> v" and "v \<le> real_of_int (BUCKET_EDGES ! (i + 1))"
  unfolding v_def
  using interpolate_bounds [OF assms(1) position_bounds [OF assms(2,3,4)]] by blast+

lemma in_bucket_mono:
  fixes c t1 t2 b :: uint64_t
  assumes "i < 10" "c \<le> t1" "t1 \<le> t2" "unat t1 \<le> unat c + unat b" "b \<noteq> 0"
  shows "double_add (real_of_int (BUCKET_EDGES ! i))
           (double_mul (double_div (uint64_to_double (t1 - ((c + b) - b))) (uint64_to_double b))
              (double_sub (real_of_int (BUCKET_EDGES ! (i + 1))) (real_of_int (BUCKET_EDGES ! i)))) \<le>
         double_add (real_of_int (BUCKET_EDGES ! i))
           (double_mul (double_div (uint64_to_double (t2 - ((c + b) - b))) (uint64_to_double b))
              (double_sub (real_of_int (BUCKET_EDGES ! (i + 1))) (real_of_int (BUCKET_EDGES ! i))))"
  by (rule interpolate_mono [OF assms(1) position_bounds(1) [OF assms(2,4,5)]
        position_mono [OF assms(2,3,5)]])

lemma scan_unfold:
  assumes "i < 10"
  shows "percentile_scan h t i c =
      (if c + lh_buckets h ! i \<ge> t then
         (if lh_buckets h ! i = 0 then real_of_int (BUCKET_EDGES ! i)
          else double_add (real_of_int (BUCKET_EDGES ! i))
            (double_mul
               (double_div (uint64_to_double (t - ((c + lh_buckets h ! i) - lh_buckets h ! i)))
                  (uint64_to_double (lh_buckets h ! i)))
               (double_sub (real_of_int (BUCKET_EDGES ! (i + 1))) (real_of_int (BUCKET_EDGES ! i)))))
       else percentile_scan h t (i + 1) (c + lh_buckets h ! i))"
  using assms by (subst percentile_scan.simps) (simp add: NUM_BUCKETS_def Let_def)

lemma scan_done: "percentile_scan h t 10 c = 1000000"
  by (subst percentile_scan.simps) (simp add: NUM_BUCKETS_def BUCKET_EDGES_def)

lemma scan_range:
  assumes len: "length (lh_buckets h) = 10"
  shows "i \<le> 10 \<Longrightarrow> c \<le> t \<Longrightarrow>
         unat c + sum_list (map unat (drop i (lh_buckets h))) < 2 ^ 64 \<Longrightarrow>
         real_of_int (BUCKET_EDGES ! i) \<le> percentile_scan h t i c \<and>
         percentile_scan h t i c \<le> 1000000"
proof (induction "10 - i" arbitrary: i c)
  case 0
  then have "i = 10" by simp
  then show ?case by (simp add: scan_done edges_last)
next
  case (Suc k)
  then have i: "i < 10" by simp
  let ?b = "lh_buckets h ! i" and ?c' = "c + lh_buckets h ! i"
  from drop_sum_step [of i "lh_buckets h"] i len Suc.prems(3)
  have nov: "unat c + unat ?b + sum_list (map unat (drop (Suc i) (lh_buckets h))) < 2 ^ 64"
    by simp
  then have uc': "unat ?c' = unat c + unat ?b"
    by (simp add: unat_word_ariths)
  have top: "real_of_int (BUCKET_EDGES ! (i + 1)) \<le> 1000000"
    using edges_mono [of "i + 1" 10] i by (simp add: edges_last)
  have low: "real_of_int (BUCKET_EDGES ! i) \<le> real_of_int (BUCKET_EDGES ! (i + 1))"
    using i by (intro edges_mono) simp_all
  show ?case
  proof (cases "?c' \<ge> t")
    case True
    show ?thesis
    proof (cases "?b = 0")
      case z: True
      then show ?thesis using True low top by (simp add: scan_unfold [OF i])
    next
      case nz: False
      from True have "unat t \<le> unat c + unat ?b" using uc' by (simp add: word_le_nat_alt)
      from in_bucket_bounds [OF i Suc.prems(2) this nz] top
      show ?thesis using True nz by (simp add: scan_unfold [OF i])
    qed
  next
    case False
    then have c't: "?c' \<le> t" by simp
    have k: "k = 10 - (i + 1)" using Suc.hyps(2) by simp
    have "unat ?c' + sum_list (map unat (drop (i + 1) (lh_buckets h))) < 2 ^ 64"
      using nov uc' by simp
    from Suc.hyps(1) [OF k _ c't this] i
    have "real_of_int (BUCKET_EDGES ! (i + 1)) \<le> percentile_scan h t (i + 1) ?c' \<and>
          percentile_scan h t (i + 1) ?c' \<le> 1000000" by simp
    then show ?thesis using False low by (simp add: scan_unfold [OF i])
  qed
qed

lemma scan_mono:
  assumes len: "length (lh_buckets h) = 10" and t: "t1 \<le> t2"
  shows "i \<le> 10 \<Longrightarrow> c \<le> t1 \<Longrightarrow>
         unat c + sum_list (map unat (drop i (lh_buckets h))) < 2 ^ 64 \<Longrightarrow>
         percentile_scan h t1 i c \<le> percentile_scan h t2 i c"
proof (induction "10 - i" arbitrary: i c)
  case 0
  then have "i = 10" by simp
  then show ?case by (simp add: scan_done)
next
  case (Suc k)
  then have i: "i < 10" by simp
  let ?b = "lh_buckets h ! i" and ?c' = "c + lh_buckets h ! i"
  from drop_sum_step [of i "lh_buckets h"] i len Suc.prems(3)
  have nov: "unat c + unat ?b + sum_list (map unat (drop (Suc i) (lh_buckets h))) < 2 ^ 64"
    by simp
  then have uc': "unat ?c' = unat c + unat ?b"
    by (simp add: unat_word_ariths)
  have nov': "unat ?c' + sum_list (map unat (drop (i + 1) (lh_buckets h))) < 2 ^ 64"
    using nov uc' by simp
  have k: "k = 10 - (i + 1)" using Suc.hyps(2) by simp
  note s1 = scan_unfold [OF i, of h t1 c] and s2 = scan_unfold [OF i, of h t2 c]
  have low: "real_of_int (BUCKET_EDGES ! i) \<le> real_of_int (BUCKET_EDGES ! (i + 1))"
    using i by (intro edges_mono) simp_all
  consider (both) "t2 \<le> ?c'" | (split) "t1 \<le> ?c'" "?c' < t2" | (neither) "?c' < t1"
    using t by fastforce
  then show ?case
  proof cases
    case both
    then have t1c: "t1 \<le> ?c'" using t by simp
    show ?thesis
    proof (cases "?b = 0")
      case True
      then show ?thesis using both t1c by (simp add: s1 s2)
    next
      case False
      from t1c have "unat t1 \<le> unat c + unat ?b" using uc' by (simp add: word_le_nat_alt)
      from in_bucket_mono [OF i Suc.prems(2) t this False]
      show ?thesis using both t1c False by (simp add: s1 s2)
    qed
  next
    case split
    from split(2) have c't2: "?c' \<le> t2" by simp
    from scan_range [OF len _ c't2 nov'] i
    have r2: "real_of_int (BUCKET_EDGES ! (i + 1)) \<le> percentile_scan h t2 (i + 1) ?c'" by simp
    have "percentile_scan h t1 i c \<le> real_of_int (BUCKET_EDGES ! (i + 1))"
    proof (cases "?b = 0")
      case True
      then show ?thesis using split(1) low by (simp add: s1)
    next
      case False
      from split(1) have "unat t1 \<le> unat c + unat ?b" using uc' by (simp add: word_le_nat_alt)
      from in_bucket_bounds(2) [OF i Suc.prems(2) this False]
      show ?thesis using split(1) False by (simp add: s1)
    qed
    with r2 show ?thesis using split(2) by (simp add: s2 not_le [symmetric])
  next
    case neither
    then have c't1: "?c' \<le> t1" by simp
    from neither t have "?c' < t2" by simp
    from Suc.hyps(1) [OF k _ c't1 nov'] i
    have "percentile_scan h t1 (i + 1) ?c' \<le> percentile_scan h t2 (i + 1) ?c'" by simp
    then show ?thesis using neither \<open>?c' < t2\<close> by (simp add: s1 s2 not_le [symmetric])
  qed
qed

text \<open>
  When the buckets above \<open>j\<close> are empty and the target count does not exceed the number
  of samples, the scan returns from a bucket up to \<open>j\<close>, so below the upper edge of
  bucket \<open>j\<close>.
\<close>

lemma empty_tail_sum:
  fixes bs :: "uint64_t list"
  assumes "length bs = 10" "\<forall>k. j < k \<and> k < 10 \<longrightarrow> bs ! k = 0"
  shows "sum_list (map unat (drop (Suc j) bs)) = 0"
proof -
  have "\<forall>x\<in>set (drop (Suc j) bs). x = 0"
  proof
    fix x assume "x \<in> set (drop (Suc j) bs)"
    then obtain m where m: "m < length (drop (Suc j) bs)" "x = drop (Suc j) bs ! m"
      by (metis in_set_conv_nth)
    then have "x = bs ! (Suc j + m)" "Suc j + m < 10" using assms(1) by simp_all
    with assms(2) show "x = 0" by simp
  qed
  then show ?thesis by (simp add: sum_list_eq_0_iff unat_eq_0)
qed

lemma scan_upper_edge:
  assumes len: "length (lh_buckets h) = 10" and j: "j < 10"
    and empty: "\<forall>k. j < k \<and> k < 10 \<longrightarrow> lh_buckets h ! k = 0"
  shows "i \<le> j \<Longrightarrow> c \<le> t \<Longrightarrow>
         unat t \<le> unat c + sum_list (map unat (drop i (lh_buckets h))) \<Longrightarrow>
         unat c + sum_list (map unat (drop i (lh_buckets h))) < 2 ^ 64 \<Longrightarrow>
         percentile_scan h t i c \<le> real_of_int (BUCKET_EDGES ! (j + 1))"
proof (induction "j - i" arbitrary: i c)
  case 0
  then have ij: "i = j" by simp
  then have i: "i < 10" using j by simp
  let ?b = "lh_buckets h ! i"
  from drop_sum_step [of i "lh_buckets h"] i len empty_tail_sum [OF len empty] ij
  have rest: "sum_list (map unat (drop i (lh_buckets h))) = unat ?b" by simp
  with "0.prems"(4) have uc': "unat (c + ?b) = unat c + unat ?b" by (simp add: unat_word_ariths)
  with "0.prems"(3) rest have reach: "t \<le> c + ?b" by (simp add: word_le_nat_alt)
  show ?case
  proof (cases "?b = 0")
    case True
    have "percentile_scan h t i c = real_of_int (BUCKET_EDGES ! i)"
      using reach True by (simp add: scan_unfold [OF i])
    moreover have "real_of_int (BUCKET_EDGES ! i) \<le> real_of_int (BUCKET_EDGES ! (i + 1))"
      using i by (intro edges_mono) simp_all
    ultimately show ?thesis unfolding ij by simp
  next
    case False
    from "0.prems"(3) rest have "unat t \<le> unat c + unat ?b" by simp
    from in_bucket_bounds(2) [OF i "0.prems"(2) this False]
    have "percentile_scan h t i c \<le> real_of_int (BUCKET_EDGES ! (i + 1))"
      using reach False by (simp add: scan_unfold [OF i])
    then show ?thesis unfolding ij .
  qed
next
  case (Suc k)
  then have ij: "i < j" by simp
  then have i: "i < 10" using j by simp
  let ?b = "lh_buckets h ! i" and ?c' = "c + lh_buckets h ! i"
  from drop_sum_step [of i "lh_buckets h"] i len
  have rest: "sum_list (map unat (drop i (lh_buckets h))) =
      unat ?b + sum_list (map unat (drop (Suc i) (lh_buckets h)))" by simp
  with Suc.prems(4) have uc': "unat ?c' = unat c + unat ?b" by (simp add: unat_word_ariths)
  have edge: "real_of_int (BUCKET_EDGES ! (i + 1)) \<le> real_of_int (BUCKET_EDGES ! (j + 1))"
    using ij j by (intro edges_mono) simp_all
  have low: "real_of_int (BUCKET_EDGES ! i) \<le> real_of_int (BUCKET_EDGES ! (i + 1))"
    using i by (intro edges_mono) simp_all
  show ?case
  proof (cases "t \<le> ?c'")
    case True
    show ?thesis
    proof (cases "?b = 0")
      case z: True
      then show ?thesis using True low edge by (simp add: scan_unfold [OF i])
    next
      case nz: False
      from True have "unat t \<le> unat c + unat ?b" using uc' by (simp add: word_le_nat_alt)
      from in_bucket_bounds(2) [OF i Suc.prems(2) this nz] edge
      show ?thesis using True nz by (simp add: scan_unfold [OF i])
    qed
  next
    case False
    then have c't: "?c' \<le> t" by simp
    have k: "k = j - (i + 1)" using Suc.hyps(2) by simp
    have a: "unat t \<le> unat ?c' + sum_list (map unat (drop (i + 1) (lh_buckets h)))"
      using Suc.prems(3) rest uc' by simp
    have b: "unat ?c' + sum_list (map unat (drop (i + 1) (lh_buckets h))) < 2 ^ 64"
      using Suc.prems(4) rest uc' by simp
    from Suc.hyps(1) [OF k _ c't a b] ij
    have "percentile_scan h t (i + 1) ?c' \<le> real_of_int (BUCKET_EDGES ! (j + 1))" by simp
    then show ?thesis using False by (simp add: scan_unfold [OF i])
  qed
qed

text \<open>The bucket search returns the first bucket whose upper edge is above the sample.\<close>

lemma edge_word_uint:
  assumes "i \<le> 10"
  shows "uint (word_of_int (BUCKET_EDGES ! i) :: uint64_t) = BUCKET_EDGES ! i"
proof -
  from edge_values [OF assms] have "0 \<le> BUCKET_EDGES ! i" "BUCKET_EDGES ! i < 2 ^ 64" by simp_all
  then show ?thesis by (simp add: uint_word_of_int take_bit_eq_mod)
qed

lemma find_bucket_spec:
  assumes l: "l < 1000000"
  shows "i < 10 \<Longrightarrow>
         i \<le> find_bucket l i 0 \<and> find_bucket l i 0 < 10 \<and>
         l < word_of_int (BUCKET_EDGES ! (find_bucket l i 0 + 1)) \<and>
         (\<forall>k. i \<le> k \<and> k < find_bucket l i 0 \<longrightarrow> word_of_int (BUCKET_EDGES ! (k + 1)) \<le> l)"
proof (induction "10 - i" arbitrary: i)
  case 0
  then show ?case by simp
next
  case (Suc n)
  show ?case
  proof (cases "l < word_of_int (BUCKET_EDGES ! (i + 1))")
    case True
    then have "find_bucket l i 0 = i"
      using Suc.prems by (subst find_bucket.simps) (simp add: NUM_BUCKETS_def)
    then show ?thesis using True Suc.prems by auto
  next
    case False
    then have ge: "word_of_int (BUCKET_EDGES ! (i + 1)) \<le> l" by simp
    have fb: "find_bucket l i 0 = find_bucket l (i + 1) 0"
      using Suc.prems False by (subst find_bucket.simps) (simp add: NUM_BUCKETS_def)
    have "i + 1 \<noteq> 10"
    proof
      assume "i + 1 = 10"
      then have "(1000000 :: uint64_t) \<le> l" using ge by (simp add: BUCKET_EDGES_def)
      with l show False by simp
    qed
    then have i1: "i + 1 < 10" using Suc.prems by simp
    have n: "n = 10 - (i + 1)" using Suc.hyps(2) by simp
    from Suc.hyps(1) [OF n i1]
    have ih: "i + 1 \<le> find_bucket l (i + 1) 0" "find_bucket l (i + 1) 0 < 10"
      "l < word_of_int (BUCKET_EDGES ! (find_bucket l (i + 1) 0 + 1))"
      "\<forall>k. i + 1 \<le> k \<and> k < find_bucket l (i + 1) 0 \<longrightarrow> word_of_int (BUCKET_EDGES ! (k + 1)) \<le> l"
      by blast+
    have "\<forall>k. i \<le> k \<and> k < find_bucket l (i + 1) 0 \<longrightarrow> word_of_int (BUCKET_EDGES ! (k + 1)) \<le> l"
    proof (intro allI impI)
      fix k assume k: "i \<le> k \<and> k < find_bucket l (i + 1) 0"
      show "word_of_int (BUCKET_EDGES ! (k + 1)) \<le> l"
      proof (cases "k = i")
        case True
        then show ?thesis using ge by simp
      next
        case False
        then have "i + 1 \<le> k" using k by simp
        with ih(4) k show ?thesis by blast
      qed
    qed
    with ih show ?thesis unfolding fb by simp
  qed
qed

lemma find_bucket_mono:
  assumes "x \<le> m" "m < 1000000"
  shows "find_bucket x 0 0 \<le> find_bucket m 0 0"
proof (rule ccontr)
  assume "\<not> find_bucket x 0 0 \<le> find_bucket m 0 0"
  then have lt: "find_bucket m 0 0 < find_bucket x 0 0" by simp
  from assms have x: "x < 1000000" by simp
  from find_bucket_spec [OF x, of 0] lt
  have "word_of_int (BUCKET_EDGES ! (find_bucket m 0 0 + 1)) \<le> x" by simp
  moreover from find_bucket_spec [OF assms(2), of 0]
  have "m < word_of_int (BUCKET_EDGES ! (find_bucket m 0 0 + 1))" by simp
  ultimately show False using assms(1) by simp
qed

text \<open>The histogram invariant holds after any sequence of samples.\<close>

lemma hist_inv_new: "hist_inv LatencyHistogram_new []"
  by (simp add: hist_inv_def LatencyHistogram_new_def LatencyHistogram_reset_def NUM_BUCKETS_def)

lemma hist_inv_step:
  assumes "hist_inv h xs" "Suc (length xs) < 2 ^ 64"
  shows "hist_inv (snd (LatencyHistogram_add_sample_us clk h x)) (xs @ [x])"
proof -
  define b where "b = find_bucket x 0 0"
  have b: "b < 10" unfolding b_def by (rule find_bucket_lt)
  define h' where "h' = snd (LatencyHistogram_add_sample_us clk h x)"
  from assms(1) have len: "length (lh_buckets h) = 10"
    and sum: "sum_list (map unat (lh_buckets h)) = length xs"
    and occ: "\<forall>i<10. lh_buckets h ! i \<noteq> 0 \<longrightarrow> (\<exists>y\<in>set xs. find_bucket y 0 0 = i)"
    and tot: "lh_total_samples h = of_nat (length xs)"
    and lat: "lh_total_latency_us h = of_nat (sum_list (map unat xs))"
    and mm: "\<forall>y\<in>set xs. lh_min_latency_us h \<le> y \<and> y \<le> lh_max_latency_us h"
    and ms: "unat (lh_max_latency_us h) \<le> sum_list (map unat xs)"
    by (simp_all add: hist_inv_def)
  have bk: "lh_buckets h' = (lh_buckets h)[b := lh_buckets h ! b + 1]"
    and tot': "lh_total_samples h' = lh_total_samples h + 1"
    and lat': "lh_total_latency_us h' = lh_total_latency_us h + x"
    and mn: "lh_min_latency_us h' = min (lh_min_latency_us h) x"
    and mx: "lh_max_latency_us h' = max (lh_max_latency_us h) x"
    using b unfolding h'_def b_def
    by (auto simp: LatencyHistogram_add_sample_us_def Let_def NUM_BUCKETS_def steady_clock_now_def
        min_def max_def split: prod.splits)
  have "sum_list (map unat (lh_buckets h')) = Suc (length xs)"
    unfolding bk using bucket_increment_sum [of b "lh_buckets h"] b len sum assms(2) by simp
  moreover have "length (lh_buckets h') = 10" unfolding bk using len by simp
  moreover have "lh_total_samples h' = of_nat (length (xs @ [x]))" unfolding tot' tot by simp
  moreover have "lh_total_latency_us h' = of_nat (sum_list (map unat (xs @ [x])))"
    unfolding lat' lat by simp
  moreover have "\<forall>y\<in>set (xs @ [x]). lh_min_latency_us h' \<le> y \<and> y \<le> lh_max_latency_us h'"
    unfolding mn mx using mm by (auto simp: min_def max_def)
  moreover have "\<forall>i<10. lh_buckets h' ! i \<noteq> 0 \<longrightarrow> (\<exists>y\<in>set (xs @ [x]). find_bucket y 0 0 = i)"
  proof (intro allI impI)
    fix i assume i: "i < 10" and nz: "lh_buckets h' ! i \<noteq> 0"
    show "\<exists>y\<in>set (xs @ [x]). find_bucket y 0 0 = i"
    proof (cases "i = b")
      case True
      then show ?thesis by (simp add: b_def)
    next
      case False
      then have "lh_buckets h ! i \<noteq> 0" using nz unfolding bk by simp
      with occ i obtain y where "y \<in> set xs" "find_bucket y 0 0 = i" by blast
      then show ?thesis by auto
    qed
  qed
  moreover have "unat (lh_max_latency_us h') \<le> sum_list (map unat (xs @ [x]))"
    unfolding mx using ms by (simp add: max_def)
  ultimately show ?thesis unfolding h'_def [symmetric] by (simp add: hist_inv_def)
qed

lemma hist_inv_run:
  "hist_inv h xs \<Longrightarrow> length xs + length ys < 2 ^ 64 \<Longrightarrow>
   hist_inv (snd (add_samples_us clk h ys)) (xs @ ys)"
proof (induction ys arbitrary: clk h xs)
  case Nil
  then show ?case by simp
next
  case (Cons y ys)
  obtain clk' h' where st: "LatencyHistogram_add_sample_us clk h y = (clk', h')" by force
  from Cons.prems have "Suc (length xs) < 2 ^ 64" by simp
  from hist_inv_step [OF Cons.prems(1) this, of clk y] st
  have "hist_inv h' (xs @ [y])" by simp
  moreover have "length (xs @ [y]) + length ys < 2 ^ 64" using Cons.prems(2) by simp
  ultimately have "hist_inv (snd (add_samples_us clk' h' ys)) ((xs @ [y]) @ ys)"
    by (rule Cons.IH)
  then show ?case using st by simp
qed

text \<open>No bucket above the bucket of the maximum holds a sample.\<close>

lemma buckets_above_max_empty:
  assumes inv: "hist_inv h xs" and m: "lh_max_latency_us h < 1000000"
  shows "\<forall>k. find_bucket (lh_max_latency_us h) 0 0 < k \<and> k < 10 \<longrightarrow> lh_buckets h ! k = 0"
proof (intro allI impI)
  fix k assume k: "find_bucket (lh_max_latency_us h) 0 0 < k \<and> k < 10"
  show "lh_buckets h ! k = 0"
  proof (rule ccontr)
    assume "lh_buckets h ! k \<noteq> 0"
    with inv k obtain y where y: "y \<in> set xs" "find_bucket y 0 0 = k"
      unfolding hist_inv_def by blast
    with inv have "y \<le> lh_max_latency_us h" unfolding hist_inv_def by blast
    from find_bucket_mono [OF this m] y(2) k show False by simp
  qed
qed

text \<open>
  The target count \<^verbatim>\<open>total * p / 100.0\<close> is monotone in \<open>p\<close>, and for \<open>p \<le> 99\<close> it does
  not exceed the number of samples: three roundings cannot make up the factor \<open>100/99\<close>.
\<close>

lemma target_bounds:
  fixes c :: uint64_t and p q :: real
  assumes "c \<noteq> 0" "0 \<le> p" "p \<le> q" "q \<le> 99"
  shows "double_to_uint64 (double_div (double_mul (uint64_to_double c) p) 100) \<le>
         double_to_uint64 (double_div (double_mul (uint64_to_double c) q) 100)"
    and "double_to_uint64 (double_div (double_mul (uint64_to_double c) q) 100) \<le> c"
proof -
  define d where "d = uint64_to_double c"
  define n where "n = unat c"
  define t where "t r = round_double (round_double (d * r) / 100)" for r
  have d1: "1 \<le> d" unfolding d_def using assms(1) by (rule u2d_ge_one)
  have "0 < n" unfolding n_def using assms(1) by (simp add: unat_gt_0)
  then have n1: "1 \<le> real n" by simp
  have "n < 2 ^ 64" unfolding n_def using unsigned_less [of c, where ?'a = nat] by simp
  then have nlt: "int n < 2 ^ 64" by (metis of_nat_less_iff of_nat_numeral of_nat_power)
  have "d = round_double (real n)" by (simp only: d_def n_def uint64_to_double_def)
  also have "\<dots> \<le> real n * (1 + 1 / 2 ^ 53)"
    by (rule round_double_rel_upper [OF normal_ge]) (use n1 in simp)
  finally have dn: "d \<le> real n * (1 + 1 / 2 ^ 53)" .
  have mono: "t r \<le> t s" if "0 \<le> r" "r \<le> s" for r s
  proof -
    have "0 \<le> d * r" using d1 that(1) by simp
    moreover have "d * r \<le> d * s" using d1 that(2) by (simp add: mult_left_mono)
    ultimately have a: "round_double (d * r) \<le> round_double (d * s)" by (rule round_double_mono)
    have "0 \<le> round_double (d * r)" using \<open>0 \<le> d * r\<close> by (rule round_double_nonneg)
    then have "0 \<le> round_double (d * r) / 100" by simp
    moreover have "round_double (d * r) / 100 \<le> round_double (d * s) / 100" using a by simp
    ultimately show ?thesis unfolding t_def by (rule round_double_mono)
  qed
  have nonneg: "0 \<le> t r" if "0 \<le> r" for r
  proof -
    have "0 \<le> d * r" using d1 that by simp
    then have "0 \<le> round_double (d * r)" by (rule round_double_nonneg)
    then have "0 \<le> round_double (d * r) / 100" by simp
    then show ?thesis unfolding t_def by (rule round_double_nonneg)
  qed
  have top: "t 99 \<le> real n"
  proof -
    have big: "1 \<le> d * 99" using d1 by simp
    have "round_double 1 \<le> round_double (d * 99)" by (rule round_double_mono) (use big in simp_all)
    then have r1: "1 \<le> round_double (d * 99)" by (simp add: round_double_1)
    have r2: "round_double (d * 99) \<le> d * 99 * (1 + 1 / 2 ^ 53)"
      by (rule round_double_rel_upper [OF normal_ge]) (use big in simp)
    have "t 99 \<le> round_double (d * 99) / 100 * (1 + 1 / 2 ^ 53)"
      unfolding t_def by (rule round_double_rel_upper [OF normal_ge]) (use r1 in simp)
    also have "\<dots> \<le> d * 99 * (1 + 1 / 2 ^ 53) / 100 * (1 + 1 / 2 ^ 53)"
      using r2 by simp
    also have "\<dots> = d * (99 * (1 + 1 / 2 ^ 53) / 100 * (1 + 1 / 2 ^ 53))" by simp
    also have "\<dots> \<le> real n * (1 + 1 / 2 ^ 53) * (99 * (1 + 1 / 2 ^ 53) / 100 * (1 + 1 / 2 ^ 53))"
      using dn by (rule mult_right_mono) simp
    also have "\<dots> = real n * ((1 + 1 / 2 ^ 53) * (99 * (1 + 1 / 2 ^ 53) / 100 * (1 + 1 / 2 ^ 53)))"
      by simp
    also have "\<dots> \<le> real n * 1"
      by (rule mult_left_mono) simp_all
    finally show ?thesis by simp
  qed
  have tq: "t q \<le> real n" using mono [of q 99] assms top by simp
  have fq: "\<lfloor>t q\<rfloor> \<le> int n" using tq by (simp add: floor_le_iff)
  have f0: "0 \<le> \<lfloor>t p\<rfloor>" using nonneg [of p] assms by simp
  have fpq: "\<lfloor>t p\<rfloor> \<le> \<lfloor>t q\<rfloor>" using mono [of p q] assms by (simp add: floor_mono)
  have q0: "0 \<le> t q" using nonneg [of q] assms by simp
  have p0: "0 \<le> t p" using nonneg [of p] assms by simp
  have fqlt: "\<lfloor>t q\<rfloor> < 2 ^ 64" using fq nlt by (rule le_less_trans)
  have "(word_of_int \<lfloor>t p\<rfloor> :: uint64_t) \<le> word_of_int \<lfloor>t q\<rfloor>"
    using f0 fpq fqlt by (rule word_of_int_mono)
  then show "double_to_uint64 (double_div (double_mul (uint64_to_double c) p) 100) \<le>
         double_to_uint64 (double_div (double_mul (uint64_to_double c) q) 100)"
    using p0 q0 by (simp add: double_to_uint64_def double_div_def double_mul_def t_def d_def)
  have "(word_of_int \<lfloor>t q\<rfloor> :: uint64_t) \<le> word_of_int (int n)"
    using order_trans [OF f0 fpq] fq nlt by (rule word_of_int_mono)
  moreover have "(word_of_int (int n) :: uint64_t) = c" by (simp add: n_def)
  ultimately show "double_to_uint64 (double_div (double_mul (uint64_to_double c) q) 100) \<le> c"
    using q0 by (simp add: double_to_uint64_def double_div_def double_mul_def t_def d_def)
qed


text \<open>
  The mean \<^verbatim>\<open>double(sum) / double(total)\<close>.  While the sum is at most \<open>2\<^sup>5\<^sup>3\<close> its conversion is
  exact and the rounded quotient stays between the smallest and the largest sample; beyond
  that the three roundings move it by a relative \<open>2\<^sup>-\<^sup>5\<^sup>1\<close> at most.
\<close>

lemma mean_exact:
  fixes n s lo hi :: nat
  assumes n: "0 < n" and lo: "n * lo \<le> s" and hi: "s \<le> n * hi" and hs: "hi \<le> s"
    and s: "s \<le> 2 ^ 53"
  shows "real lo \<le> round_double (round_double (real s) / round_double (real n))"
    and "round_double (round_double (real s) / round_double (real n)) \<le> real hi"
proof -
  have a: "round_double (real s) = real s" using s by (rule round_double_nat)
  have hi53: "hi \<le> 2 ^ 53" using hs s by simp
  have "n * lo \<le> n * hi" using lo hi by (rule order_trans)
  then have lohi: "lo \<le> hi" using n by simp
  then have lo53: "lo \<le> 2 ^ 53" using hi53 by simp
  have both: "real lo \<le> round_double (round_double (real s) / round_double (real n)) \<and>
      round_double (round_double (real s) / round_double (real n)) \<le> real hi"
  proof (cases "n \<le> 2 ^ 53")
    case True
    then have b: "round_double (real n) = real n" by (rule round_double_nat)
    have "real (n * lo) \<le> real s" using lo by (rule iffD2 [OF of_nat_le_iff])
    then have l: "real lo \<le> real s / real n" using n by (simp add: le_divide_eq mult.commute)
    have "real s \<le> real (n * hi)" using hi by (rule iffD2 [OF of_nat_le_iff])
    then have h: "real s / real n \<le> real hi" using n by (simp add: divide_le_eq mult.commute)
    have "round_double (real lo) \<le> round_double (real s / real n)"
      by (rule round_double_mono [OF _ l]) simp
    moreover have "round_double (real s / real n) \<le> round_double (real hi)"
      by (rule round_double_mono [OF _ h]) simp
    ultimately show ?thesis
      by (simp only: a b round_double_nat [OF lo53] round_double_nat [OF hi53])
  next
    case False
    then have big: "2 ^ 53 \<le> real n"
      by (metis less_imp_le not_le of_nat_le_iff of_nat_numeral of_nat_power)
    have "round_double (2 ^ 53) \<le> round_double (real n)"
      by (rule round_double_mono [OF _ big]) simp
    then have b: "2 ^ 53 \<le> round_double (real n)" by (simp only: round_double_2_53)
    have "s < n" using s False by simp
    with lo have lo0: "lo = 0" by (cases lo) auto
    have sb: "real s \<le> 2 ^ 53" using s by (metis of_nat_le_iff of_nat_numeral of_nat_power)
    have q0: "0 \<le> real s / round_double (real n)" using b by simp
    have l: "0 \<le> round_double (real s / round_double (real n))"
      using q0 by (rule round_double_nonneg)
    have h: "round_double (real s / round_double (real n)) \<le> real hi"
    proof (cases "s = 0")
      case True
      then show ?thesis by (simp add: round_double_0)
    next
      case False
      with hi have "hi \<noteq> 0" by (cases hi) auto
      then have h1: "1 \<le> real hi" by simp
      have "real s / round_double (real n) \<le> 1" using sb b by simp
      from round_double_mono [OF q0 this] have "round_double (real s / round_double (real n)) \<le> 1"
        by (simp only: round_double_1)
      with h1 show ?thesis by linarith
    qed
    from l h show ?thesis by (simp only: a lo0) simp
  qed
  from both show "real lo \<le> round_double (round_double (real s) / round_double (real n))" ..
  from both show "round_double (round_double (real s) / round_double (real n)) \<le> real hi" ..
qed

lemma mean_relative:
  fixes n s lo hi :: nat
  assumes n: "0 < n" and n64: "n < 2 ^ 64" and lo: "n * lo \<le> s" and hi: "s \<le> n * hi"
  shows "real lo * (1 - 1 / 2 ^ 51) \<le> round_double (round_double (real s) / round_double (real n))"
    and "round_double (round_double (real s) / round_double (real n)) \<le> real hi * (1 + 1 / 2 ^ 51)"
proof -
  define a :: real where "a = 1 + 1 / 2 ^ 53"
  define b :: real where "b = 1 - 1 / 2 ^ 53"
  define A where "A = round_double (real s)"
  define B where "B = round_double (real n)"
  have a0: "0 < a" and b0: "0 < b" and aab: "a * a / b \<le> 1 + 1 / 2 ^ 51"
    and bba: "1 - 1 / 2 ^ 51 \<le> b * b / a"
    by (simp_all add: a_def b_def)
  have n1: "1 \<le> real n" using n by simp
  have nn: "2 powr (- 1022) \<le> real n" by (rule normal_ge) (use n1 in simp)
  have Bu: "B \<le> real n * a" unfolding B_def a_def by (rule round_double_rel_upper [OF nn])
  have Bl: "real n * b \<le> B" unfolding B_def b_def by (rule round_double_rel_lower [OF nn])
  have "round_double 1 \<le> round_double (real n)" by (rule round_double_mono [OF _ n1]) simp
  then have B1: "1 \<le> B" by (simp only: B_def round_double_1)
  have "real n \<le> 2 ^ 64" using n64 by (metis less_imp_le of_nat_le_iff of_nat_numeral of_nat_power)
  then have "round_double (real n) \<le> round_double (2 ^ 64)" by (rule round_double_mono [rotated]) simp
  then have B64: "B \<le> 2 ^ 64" by (simp only: B_def round_double_2_64)
  have both: "real lo * (1 - 1 / 2 ^ 51) \<le> round_double (A / B) \<and>
      round_double (A / B) \<le> real hi * (1 + 1 / 2 ^ 51)"
  proof (cases "s = 0")
    case True
    with lo n have "lo = 0" by simp
    then show ?thesis using True by (simp add: A_def round_double_0)
  next
    case False
    then have s1: "1 \<le> real s" by simp
    have sn: "2 powr (- 1022) \<le> real s" by (rule normal_ge) (use s1 in simp)
    have Au: "A \<le> real s * a" unfolding A_def a_def by (rule round_double_rel_upper [OF sn])
    have Al: "real s * b \<le> A" unfolding A_def b_def by (rule round_double_rel_lower [OF sn])
    have "round_double 1 \<le> round_double (real s)" by (rule round_double_mono [OF _ s1]) simp
    then have A1: "1 \<le> A" by (simp only: A_def round_double_1)
    have "1 / 2 ^ 64 \<le> A / B" using A1 B1 B64 by (intro frac_le) simp_all
    then have qn: "2 powr (- 1022) \<le> A / B" by (rule normal_ge)
    have Mu: "round_double (A / B) \<le> A / B * a" unfolding a_def by (rule round_double_rel_upper [OF qn])
    have Ml: "A / B * b \<le> round_double (A / B)" unfolding b_def by (rule round_double_rel_lower [OF qn])
    have "real s \<le> real (n * hi)" using hi by (rule iffD2 [OF of_nat_le_iff])
    then have "real s * a \<le> real n * real hi * a" using a0 by simp
    with Au have Au': "A \<le> real n * real hi * a" by linarith
    have "A / B \<le> (real n * real hi * a) / (real n * b)"
      using Au' Bl b0 n A1 by (intro frac_le) simp_all
    also have "\<dots> = real hi * (a / b)" using n by simp
    finally have "A / B \<le> real hi * (a / b)" .
    then have "A / B * a \<le> real hi * (a / b) * a" using a0 by (intro mult_right_mono) simp_all
    also have "\<dots> = real hi * (a * a / b)" by simp
    also have "\<dots> \<le> real hi * (1 + 1 / 2 ^ 51)" using aab by (rule mult_left_mono) simp
    finally have up: "round_double (A / B) \<le> real hi * (1 + 1 / 2 ^ 51)" using Mu by linarith
    have "real (n * lo) \<le> real s" using lo by (rule iffD2 [OF of_nat_le_iff])
    then have "real n * real lo * b \<le> real s * b" using b0 by simp
    with Al have Al': "real n * real lo * b \<le> A" by linarith
    have "(real n * real lo * b) / (real n * a) \<le> A / B"
      using Al' Bu a0 b0 n B1 A1 by (intro frac_le) simp_all
    moreover have "(real n * real lo * b) / (real n * a) = real lo * (b / a)" using n by simp
    ultimately have "real lo * (b / a) \<le> A / B" by simp
    then have "real lo * (b / a) * b \<le> A / B * b" using b0 by (intro mult_right_mono) simp_all
    moreover have "real lo * (b / a) * b = real lo * (b * b / a)" by simp
    moreover have "real lo * (1 - 1 / 2 ^ 51) \<le> real lo * (b * b / a)"
      using bba by (rule mult_left_mono) simp
    ultimately have "real lo * (1 - 1 / 2 ^ 51) \<le> round_double (A / B)" using Ml by linarith
    then show ?thesis using up by (rule conjI)
  qed
  from both show "real lo * (1 - 1 / 2 ^ 51) \<le>
      round_double (round_double (real s) / round_double (real n))"
    unfolding A_def B_def ..
  from both show "round_double (round_double (real s) / round_double (real n)) \<le>
      real hi * (1 + 1 / 2 ^ 51)"
    unfolding A_def B_def ..
qed

text \<open>
  Three concrete histograms: two samples of 10 microseconds, two samples of \<open>2\<^sup>6\<^sup>3\<close>, and one
  sample of \<open>2\<^sup>5\<^sup>3 + 1\<close>.
\<close>

lemma hist_10_10:
  "snd (add_samples_us (\<lambda>n. 0) LatencyHistogram_new [10, 10]) =
     \<lparr>lh_buckets = [2, 0, 0, 0, 0, 0, 0, 0, 0, 0], lh_total_samples = 2,
      lh_total_latency_us = 20, lh_min_latency_us = 10, lh_max_latency_us = 10,
      lh_start_time = 0, lh_timing_started = True\<rparr>"
  by code_simp

lemma hist_big:
  "snd (add_samples_us (\<lambda>n. 0) LatencyHistogram_new [2 ^ 63, 2 ^ 63]) =
     \<lparr>lh_buckets = [2, 0, 0, 0, 0, 0, 0, 0, 0, 0], lh_total_samples = 2,
      lh_total_latency_us = 0, lh_min_latency_us = 2 ^ 63, lh_max_latency_us = 2 ^ 63,
      lh_start_time = 0, lh_timing_started = True\<rparr>"
  by code_simp

lemma hist_odd:
  "snd (add_samples_us (\<lambda>n. 0) LatencyHistogram_new [9007199254740993]) =
     \<lparr>lh_buckets = [1, 0, 0, 0, 0, 0, 0, 0, 0, 0], lh_total_samples = 1,
      lh_total_latency_us = 9007199254740993, lh_min_latency_us = 9007199254740993,
      lh_max_latency_us = 9007199254740993, lh_start_time = 0, lh_timing_started = True\<rparr>"
  by code_simp

lemma hist_late:
  "snd (add_samples_us (\<lambda>n. 0) LatencyHistogram_new [5000000]) =
     \<lparr>lh_buckets = [1, 0, 0, 0, 0, 0, 0, 0, 0, 0], lh_total_samples = 1,
      lh_total_latency_us = 5000000, lh_min_latency_us = 5000000,
      lh_max_latency_us = 5000000, lh_start_time = 0, lh_timing_started = True\<rparr>"
  by code_simp

lemma round_double_small:
  "round_double 2 = 2" "round_double 25 = 25" "round_double 50 = 50" "round_double 198 = 198"
  "round_double (1 / 2) = 1 / 2"
  using round_double_int [of 2] round_double_int [of 25] round_double_int [of 50]
    round_double_int [of 198] round_double_exact [of 1 "- 1"]
  by (simp_all add: powr_minus_divide)

lemma round_double_99_50: "\<lfloor>round_double (99 / 50)\<rfloor> = 1"
proof -
  have "round_double 1 \<le> round_double (99 / 50)" by (rule round_double_mono) simp_all
  then have a: "1 \<le> round_double (99 / 50)" by (simp only: round_double_1)
  have "round_double (255 * 2 powr of_int (- 7)) = 255 * 2 powr of_int (- 7)"
    using round_double_exact [of 255 "- 7"] by simp
  then have e: "round_double (255 / 128) = 255 / 128" by (simp add: powr_minus_divide)
  have "round_double (99 / 50) \<le> round_double (255 / 128)" by (rule round_double_mono) simp_all
  then have "round_double (99 / 50) < 2" by (simp add: e)
  with a show ?thesis by (intro floor_unique) simp_all
qed

lemma round_double_odd: "round_double 9007199254740993 = 9007199254740992"
proof -
  have "round_double 9007199254740993 =
      real_of_int (round_half_even (9007199254740993 / 2 powr of_int (53 - 52))) *
        2 powr of_int (53 - 52)"
    by (rule round_double_at) simp_all
  moreover have "round_half_even (9007199254740993 / 2) = 4503599627370496"
    by (simp add: round_half_even_def Let_def)
  ultimately show ?thesis by simp
qed

lemma p99_10_10:
  "LatencyHistogram_p99_us
     \<lparr>lh_buckets = [2, 0, 0, 0, 0, 0, 0, 0, 0, 0], lh_total_samples = 2,
      lh_total_latency_us = 20, lh_min_latency_us = 10, lh_max_latency_us = 10,
      lh_start_time = 0, lh_timing_started = True\<rparr> = 25"
proof -
  have u2: "uint64_to_double 2 = 2" using u2d_exact [of 2] by simp
  show ?thesis
    by (simp add: LatencyHistogram_total_samples_def LatencyHistogram_p99_us_def
      LatencyHistogram_percentile_us_def scan_unfold BUCKET_EDGES_def
      double_to_uint64_def double_div_def double_mul_def double_add_def double_sub_def
      u2 u2d_one round_double_small round_double_99_50 round_double_nonneg Let_def)
qed

lemma mean_big:
  "LatencyHistogram_mean_latency_us
     \<lparr>lh_buckets = [2, 0, 0, 0, 0, 0, 0, 0, 0, 0], lh_total_samples = 2,
      lh_total_latency_us = 0, lh_min_latency_us = 2 ^ 63, lh_max_latency_us = 2 ^ 63,
      lh_start_time = 0, lh_timing_started = True\<rparr> = 0"
  by (simp add: LatencyHistogram_mean_latency_us_def LatencyHistogram_total_samples_def
      double_div_def u2d_zero round_double_0)

lemma mean_odd:
  "LatencyHistogram_mean_latency_us
     \<lparr>lh_buckets = [1, 0, 0, 0, 0, 0, 0, 0, 0, 0], lh_total_samples = 1,
      lh_total_latency_us = 9007199254740993, lh_min_latency_us = 9007199254740993,
      lh_max_latency_us = 9007199254740993, lh_start_time = 0, lh_timing_started = True\<rparr> =
   9007199254740992"
proof -
  have "uint64_to_double 9007199254740993 = 9007199254740992"
    by (simp add: uint64_to_double_def round_double_odd)
  moreover have "round_double 9007199254740992 = 9007199254740992"
    using round_double_2_53 by simp
  ultimately show ?thesis
    by (simp add: LatencyHistogram_mean_latency_us_def LatencyHistogram_total_samples_def
      double_div_def u2d_one)
qed

text \<open>
  Claim C9 as stated fails.  After two samples of 10 microseconds \<^verbatim>\<open>p99_us()\<close> is 25, above
  \<^verbatim>\<open>max_latency_us()\<close> = 10: the percentile is interpolated inside the bucket \<open>[0, 50)\<close>.
  After two samples of \<open>2\<^sup>6\<^sup>3\<close> microseconds the 64-bit latency sum has wrapped to 0, so
  \<^verbatim>\<open>mean_latency_us()\<close> is 0, below \<^verbatim>\<open>min_latency_us()\<close>.  After one sample of
  \<open>2\<^sup>5\<^sup>3 + 1\<close> microseconds the conversion of the sum to \<^verbatim>\<open>double\<close> rounds to \<open>2\<^sup>5\<^sup>3\<close>, so the mean
  is \<open>2\<^sup>5\<^sup>3\<close>, again below the minimum.
\<close>

theorem percentile_counterexample:
  "(let h = snd (add_samples_us (\<lambda>n. 0) LatencyHistogram_new [10, 10])
    in LatencyHistogram_total_samples h > 0 \<and>
       \<not> LatencyHistogram_p99_us h \<le> real (unat (LatencyHistogram_max_latency_us h))) \<and>
   (let h = snd (add_samples_us (\<lambda>n. 0) LatencyHistogram_new [2 ^ 63, 2 ^ 63])
    in LatencyHistogram_total_samples h > 0 \<and>
       \<not> real (unat (LatencyHistogram_min_latency_us h)) \<le> LatencyHistogram_mean_latency_us h) \<and>
   (let h = snd (add_samples_us (\<lambda>n. 0) LatencyHistogram_new [9007199254740993])
    in LatencyHistogram_total_samples h > 0 \<and>
       \<not> real (unat (LatencyHistogram_min_latency_us h)) \<le> LatencyHistogram_mean_latency_us h)"
  unfolding Let_def hist_10_10 hist_big hist_odd p99_10_10 mean_big mean_odd
  by (simp add: LatencyHistogram_total_samples_def LatencyHistogram_max_latency_us_def
      LatencyHistogram_min_latency_us_def UINT64_MAX_def)

text \<open>
  Claim C9, amended.  For every histogram holding at least one sample (fewer than \<open>2\<^sup>6\<^sup>4\<close>
  of them), \<open>p50 \<le> p95 \<le> p99\<close>; \<open>p99\<close> is at most every bucket edge above the largest
  sample, and at most 1000000, so it is at most the largest sample when that is 1000000
  or more; \<open>min \<le> mean \<le> max\<close> whenever the sum of the samples is at most \<open>2\<^sup>5\<^sup>3\<close>; and
  while the sum fits in 64 bits the mean is within a relative \<open>2\<^sup>-\<^sup>5\<^sup>1\<close> of that range.
\<close>

theorem histogram_statistics_ordered:
  assumes "samples \<noteq> []" and "length samples < 2 ^ 64"
  shows "let h = snd (add_samples_us clk LatencyHistogram_new samples);
             lo = real (unat (LatencyHistogram_min_latency_us h));
             hi = real (unat (LatencyHistogram_max_latency_us h));
             mean = LatencyHistogram_mean_latency_us h;
             total = sum_list (map unat samples)
         in LatencyHistogram_p50_us h \<le> LatencyHistogram_p95_us h \<and>
            LatencyHistogram_p95_us h \<le> LatencyHistogram_p99_us h \<and>
            LatencyHistogram_p99_us h \<le> 1000000 \<and>
            (\<forall>e\<in>set BUCKET_EDGES. uint (LatencyHistogram_max_latency_us h) < e \<longrightarrow>
               LatencyHistogram_p99_us h \<le> real_of_int e) \<and>
            (1000000 \<le> LatencyHistogram_max_latency_us h \<longrightarrow> LatencyHistogram_p99_us h \<le> hi) \<and>
            (total \<le> 2 ^ 53 \<longrightarrow> lo \<le> mean \<and> mean \<le> hi) \<and>
            (total < 2 ^ 64 \<longrightarrow> lo * (1 - 1 / 2 ^ 51) \<le> mean \<and> mean \<le> hi * (1 + 1 / 2 ^ 51))"
proof -
  define h where "h = snd (add_samples_us clk LatencyHistogram_new samples)"
  define n where "n = length samples"
  define S where "S = sum_list (map unat samples)"
  define mx where "mx = LatencyHistogram_max_latency_us h"
  define t where "t p = double_to_uint64
      (double_div (double_mul (uint64_to_double (lh_total_samples h)) p) 100)" for p
  have n: "0 < n" "n < 2 ^ 64" using assms by (simp_all add: n_def)
  from hist_inv_run [OF hist_inv_new, of samples clk] assms(2)
  have inv: "hist_inv h samples" by (simp add: h_def)
  then have len: "length (lh_buckets h) = 10"
    and sum: "sum_list (map unat (lh_buckets h)) = n"
    and tot: "lh_total_samples h = of_nat n"
    and lat: "lh_total_latency_us h = of_nat S"
    and mm: "\<forall>x\<in>set samples. lh_min_latency_us h \<le> x \<and> x \<le> lh_max_latency_us h"
    and ms: "unat (lh_max_latency_us h) \<le> S"
    by (simp_all add: hist_inv_def n_def S_def)
  have mxd: "mx = lh_max_latency_us h" by (simp add: mx_def LatencyHistogram_max_latency_us_def)
  have un: "unat (lh_total_samples h) = n" unfolding tot using n(2) by (simp add: unat_of_nat)
  have nz: "lh_total_samples h \<noteq> 0" using un n(1) by auto
  have nov: "unat (0 :: uint64_t) + sum_list (map unat (drop 0 (lh_buckets h))) < 2 ^ 64"
    using sum n(2) by simp
  have perc: "LatencyHistogram_percentile_us h p = percentile_scan h (t p) 0 0" for p
    using nz by (simp add: LatencyHistogram_percentile_us_def LatencyHistogram_total_samples_def
        Let_def t_def)
  have m1: "LatencyHistogram_p50_us h \<le> LatencyHistogram_p95_us h"
    unfolding LatencyHistogram_p50_us_def LatencyHistogram_p95_us_def perc t_def
    by (rule scan_mono [OF len target_bounds(1) [OF nz] _ _ nov]) simp_all
  have m2: "LatencyHistogram_p95_us h \<le> LatencyHistogram_p99_us h"
    unfolding LatencyHistogram_p95_us_def LatencyHistogram_p99_us_def perc t_def
    by (rule scan_mono [OF len target_bounds(1) [OF nz] _ _ nov]) simp_all
  have m3: "LatencyHistogram_p99_us h \<le> 1000000"
    unfolding LatencyHistogram_p99_us_def perc
    using scan_range [OF len _ _ nov, of "t 99"] by simp
  have t99: "unat (t 99) \<le> n"
    using target_bounds(2) [OF nz, of 99 99] un by (simp add: t_def word_le_nat_alt)
  have m4: "LatencyHistogram_p99_us h \<le> real_of_int e"
    if e: "e \<in> set BUCKET_EDGES" and above: "uint mx < e" for e
  proof -
    have "length BUCKET_EDGES = 11" by (simp add: BUCKET_EDGES_def)
    with e obtain k where k: "k < 11" "e = BUCKET_EDGES ! k"
      by (metis in_set_conv_nth)
    then have k10: "k \<le> 10" by simp
    from edge_values(2) [OF k10] above k(2) have "uint mx < 1000000" by simp
    then have small: "lh_max_latency_us h < 1000000" unfolding mxd by (simp add: word_less_def)
    define j where "j = find_bucket (lh_max_latency_us h) 0 0"
    from find_bucket_spec [OF small, of 0]
    have j: "j < 10"
      and below: "\<forall>k. k < j \<longrightarrow> word_of_int (BUCKET_EDGES ! (k + 1)) \<le> lh_max_latency_us h"
      by (simp_all add: j_def)
    have empty: "\<forall>k. j < k \<and> k < 10 \<longrightarrow> lh_buckets h ! k = 0"
      unfolding j_def by (rule buckets_above_max_empty [OF inv small])
    have "percentile_scan h (t 99) 0 0 \<le> real_of_int (BUCKET_EDGES ! (j + 1))"
      by (rule scan_upper_edge [OF len j empty]) (use t99 sum n in simp_all)
    then have p: "LatencyHistogram_p99_us h \<le> real_of_int (BUCKET_EDGES ! (j + 1))"
      by (simp add: LatencyHistogram_p99_us_def perc)
    have "j + 1 \<le> k"
    proof (rule ccontr)
      assume "\<not> j + 1 \<le> k"
      then have kj: "k \<le> j" by simp
      have "BUCKET_EDGES ! k \<le> uint mx"
      proof (cases k)
        case 0
        then show ?thesis by (simp add: BUCKET_EDGES_def)
      next
        case (Suc k')
        then have "k' < j" using kj by simp
        with below have "word_of_int (BUCKET_EDGES ! (k' + 1)) \<le> lh_max_latency_us h" by blast
        then have "uint (word_of_int (BUCKET_EDGES ! k) :: uint64_t) \<le> uint mx"
          using Suc by (simp add: word_le_def mxd)
        then show ?thesis by (simp only: edge_word_uint [OF k10])
      qed
      with above k(2) show False by simp
    qed
    then have "real_of_int (BUCKET_EDGES ! (j + 1)) \<le> real_of_int (BUCKET_EDGES ! k)"
      using k10 by (rule edges_mono)
    with p show ?thesis by (simp add: k(2))
  qed
  have m5: "LatencyHistogram_p99_us h \<le> real (unat mx)" if big: "1000000 \<le> mx"
  proof -
    from big have "unat (1000000 :: uint64_t) \<le> unat mx" by (simp only: word_le_nat_alt)
    then have "1000000 \<le> unat mx" by simp
    then have "real 1000000 \<le> real (unat mx)" by (rule iffD2 [OF of_nat_le_iff])
    then have "1000000 \<le> real (unat mx)" by simp
    with m3 show ?thesis by linarith
  qed
  define lo where "lo = unat (LatencyHistogram_min_latency_us h)"
  define hi where "hi = unat mx"
  have lod: "real (unat (LatencyHistogram_min_latency_us h)) = real lo"
    and hid: "real (unat mx) = real hi"
    by (simp_all only: lo_def hi_def)
  have "LatencyHistogram_min_latency_us h \<le> lh_min_latency_us h"
    by (simp add: LatencyHistogram_min_latency_us_def Let_def)
  then have "\<forall>x\<in>set samples. lo \<le> unat x"
    using mm unfolding lo_def by (metis order_trans word_le_nat_alt)
  then have nlo: "n * lo \<le> S" unfolding n_def S_def by (rule sum_list_lower)
  have "\<forall>x\<in>set samples. unat x \<le> hi"
    using mm unfolding hi_def mxd by (simp add: word_le_nat_alt)
  then have nhi: "S \<le> n * hi" unfolding n_def S_def by (rule sum_list_upper)
  have his: "hi \<le> S" using ms by (simp add: hi_def mxd)
  have mean: "LatencyHistogram_mean_latency_us h =
      round_double (round_double (real S) / round_double (real n))" if "S < 2 ^ 64"
  proof -
    have us: "unat (lh_total_latency_us h) = S" unfolding lat using that by (simp add: unat_of_nat)
    have "0 < lh_total_samples h" using nz by (simp add: word_greater_zero_iff)
    then show ?thesis
      by (simp only: LatencyHistogram_mean_latency_us_def LatencyHistogram_total_samples_def
          Let_def if_True double_div_def uint64_to_double_def us un)
  qed
  have m6: "real (unat (LatencyHistogram_min_latency_us h)) \<le> LatencyHistogram_mean_latency_us h \<and>
      LatencyHistogram_mean_latency_us h \<le> real (unat mx)" if s: "S \<le> 2 ^ 53"
  proof -
    from s have "S < 2 ^ 64" by (rule le_less_trans) simp
    from mean [OF this] mean_exact [OF n(1) nlo nhi his s] show ?thesis
      by (simp only: lod hid)
  qed
  have m7: "real (unat (LatencyHistogram_min_latency_us h)) * (1 - 1 / 2 ^ 51) \<le>
        LatencyHistogram_mean_latency_us h \<and>
      LatencyHistogram_mean_latency_us h \<le> real (unat mx) * (1 + 1 / 2 ^ 51)" if s: "S < 2 ^ 64"
    using mean [OF s] mean_relative [OF n nlo nhi] by (simp only: lod hid)
  show ?thesis
    unfolding Let_def h_def [symmetric] S_def [symmetric] mx_def [symmetric]
    using m1 m2 m3 m4 m5 m6 m7 by blast
qed

theorem histogram_statistics_ordered_witness:
  "[10, 10 :: uint64_t] \<noteq> [] \<and> length [10, 10 :: uint64_t] < 2 ^ 64 \<and>
   sum_list (map unat [10, 10 :: uint64_t]) \<le> 2 ^ 53 \<and>
   sum_list (map unat [10, 10 :: uint64_t]) < 2 ^ 64 \<and>
   50 \<in> set BUCKET_EDGES \<and>
   [5000000 :: uint64_t] \<noteq> [] \<and> length [5000000 :: uint64_t] < 2 ^ 64 \<and>
   (let h = snd (add_samples_us (\<lambda>n. 0) LatencyHistogram_new [10, 10])
    in uint (LatencyHistogram_max_latency_us h) < 50 \<and>
       LatencyHistogram_p50_us h \<le> LatencyHistogram_p95_us h \<and>
       LatencyHistogram_p95_us h \<le> LatencyHistogram_p99_us h \<and>
       LatencyHistogram_p99_us h \<le> 50 \<and>
       real (unat (LatencyHistogram_min_latency_us h)) \<le> LatencyHistogram_mean_latency_us h \<and>
       LatencyHistogram_mean_latency_us h \<le> real (unat (LatencyHistogram_max_latency_us h)) \<and>
       real (unat (LatencyHistogram_min_latency_us h)) * (1 - 1 / 2 ^ 51) \<le>
         LatencyHistogram_mean_latency_us h \<and>
       LatencyHistogram_mean_latency_us h \<le>
         real (unat (LatencyHistogram_max_latency_us h)) * (1 + 1 / 2 ^ 51)) \<and>
   (let h = snd (add_samples_us (\<lambda>n. 0) LatencyHistogram_new [5000000])
    in 1000000 \<le> LatencyHistogram_max_latency_us h \<and>
       LatencyHistogram_p99_us h \<le> real (unat (LatencyHistogram_max_latency_us h)))"
proof -
  have h1: "[10, 10 :: uint64_t] \<noteq> []" by simp
  have h2: "length [10, 10 :: uint64_t] < 2 ^ 64" by simp
  have h3: "sum_list (map unat [10, 10 :: uint64_t]) \<le> 2 ^ 53" by simp
  have h4: "sum_list (map unat [10, 10 :: uint64_t]) < 2 ^ 64" by simp
  have h5: "50 \<in> set BUCKET_EDGES" by (simp add: BUCKET_EDGES_def)
  have h6: "uint (LatencyHistogram_max_latency_us
      (snd (add_samples_us (\<lambda>n. 0) LatencyHistogram_new [10, 10]))) < 50"
    unfolding hist_10_10 by (simp add: LatencyHistogram_max_latency_us_def)
  have g1: "[5000000 :: uint64_t] \<noteq> []" by simp
  have g2: "length [5000000 :: uint64_t] < 2 ^ 64" by simp
  have g3: "1000000 \<le> LatencyHistogram_max_latency_us
      (snd (add_samples_us (\<lambda>n. 0) LatencyHistogram_new [5000000]))"
    unfolding hist_late by (simp add: LatencyHistogram_max_latency_us_def)
  from histogram_statistics_ordered [OF h1 h2, of "\<lambda>n. 0"]
    histogram_statistics_ordered [OF g1 g2, of "\<lambda>n. 0"] h1 h2 h3 h4 h5 h6 g1 g2 g3
  show ?thesis unfolding Let_def by fastforce
qed

subsection \<open>Router\<close>

text \<open>Composing the effects of successive steps on the world.\<close>

lemma emits_refl: "emits ps w w"
  unfolding emits_def by (rule exI [of _ 0], rule exI [of _ "[]"]) simp

lemma emits_trans:
  assumes "emits ps w w1" "emits ps w1 w2"
  shows "emits ps w w2"
proof -
  from assms(1) obtain j1 new1 where 1: "w_clock w1 = (\<lambda>n. w_clock w (n + j1))"
    "w_delivered w1 = w_delivered w @ new1"
    "\<forall>e\<in>set new1. (event_type e = CORRELATION_BREAK \<longrightarrow> (primary_symbol e, secondary_symbol e) \<in> set ps) \<and>
       (\<exists>k. event_time e = w_clock w k \<and> generation_time e = w_clock w (Suc k))"
    unfolding emits_def by blast
  from assms(2) obtain j2 new2 where 2: "w_clock w2 = (\<lambda>n. w_clock w1 (n + j2))"
    "w_delivered w2 = w_delivered w1 @ new2"
    "\<forall>e\<in>set new2. (event_type e = CORRELATION_BREAK \<longrightarrow> (primary_symbol e, secondary_symbol e) \<in> set ps) \<and>
       (\<exists>k. event_time e = w_clock w1 k \<and> generation_time e = w_clock w1 (Suc k))"
    unfolding emits_def by blast
  have c: "w_clock w2 = (\<lambda>n. w_clock w (n + (j2 + j1)))"
    unfolding 2(1) 1(1) by (simp add: add.assoc)
  have d: "w_delivered w2 = w_delivered w @ (new1 @ new2)"
    unfolding 2(2) 1(2) by simp
  have "\<exists>k. event_time e = w_clock w k \<and> generation_time e = w_clock w (Suc k)"
    if "e \<in> set new2" for e
  proof -
    from 2(3) that obtain k where "event_time e = w_clock w1 k" "generation_time e = w_clock w1 (Suc k)"
      by blast
    then have "event_time e = w_clock w (k + j1) \<and> generation_time e = w_clock w (Suc (k + j1))"
      unfolding 1(1) by simp
    then show ?thesis by blast
  qed
  with 1(3) 2(3) have "\<forall>e\<in>set (new1 @ new2).
       (event_type e = CORRELATION_BREAK \<longrightarrow> (primary_symbol e, secondary_symbol e) \<in> set ps) \<and>
       (\<exists>k. event_time e = w_clock w k \<and> generation_time e = w_clock w (Suc k))"
    by auto
  with c d show ?thesis unfolding emits_def by blast
qed

lemma emits_mono:
  assumes "emits ps w w'" "set ps \<subseteq> set ps'"
  shows "emits ps' w w'"
  using assms unfolding emits_def by blast

lemma emit_signal_emits:
  assumes "type = CORRELATION_BREAK \<longrightarrow> (primary, secondary) \<in> set ps"
  shows "emits ps w (fst (emit_signal w r type primary secondary strength conf))"
proof (cases "signal_callback r")
  case False
  then show ?thesis by (simp add: emit_signal_def emits_refl)
next
  case True
  let ?e = "\<lparr>event_type = type, primary_symbol = primary, secondary_symbol = secondary,
            signal_strength = strength, confidence = conf, event_time = w_clock w 0,
            generation_time = w_clock w (Suc 0), signal_id = signal_counter r\<rparr>"
  have "fst (emit_signal w r type primary secondary strength conf) =
      w\<lparr>w_clock := (\<lambda>n. w_clock w (n + 2)), w_delivered := w_delivered w @ [?e]\<rparr>"
    using True by (simp add: emit_signal_def SignalEvent_new_def steady_clock_now_def)
  then show ?thesis
    unfolding emits_def using assms
    by (intro exI [of _ 2] exI [of _ "[?e]"]) auto
qed

lemma emit_signal_router:
  "\<exists>c. snd (emit_signal w r type primary secondary strength conf) = r\<lparr>signal_counter := c\<rparr>"
proof (cases "signal_callback r")
  case False
  then have "snd (emit_signal w r type primary secondary strength conf) = r\<lparr>signal_counter := signal_counter r\<rparr>"
    by (simp add: emit_signal_def)
  then show ?thesis ..
next
  case True
  then have "snd (emit_signal w r type primary secondary strength conf) =
      r\<lparr>signal_counter := signal_counter r + 1\<rparr>"
    by (simp add: emit_signal_def SignalEvent_new_def steady_clock_now_def split: prod.splits)
  then show ?thesis ..
qed

text \<open>Evaluating a rule and emitting on fire, as each of the four call sites does.\<close>

lemma fire_emits:
  assumes "type = CORRELATION_BREAK \<longrightarrow> (primary, secondary) \<in> set ps"
  shows "\<exists>w' c. (case res of (fires, strength) \<Rightarrow>
            if fires then emit_signal w r type primary secondary strength conf else (w, r)) =
          (w', r\<lparr>signal_counter := c\<rparr>) \<and> emits ps w w'"
proof (cases res)
  case (Pair fires strength)
  show ?thesis
  proof (cases fires)
    case True
    from emit_signal_router [of w r type primary secondary strength conf]
    obtain c where "snd (emit_signal w r type primary secondary strength conf) = r\<lparr>signal_counter := c\<rparr>" ..
    moreover note emit_signal_emits [OF assms, of w r strength conf]
    ultimately show ?thesis unfolding Pair using True
      by (intro exI [of _ "fst (emit_signal w r type primary secondary strength conf)"] exI [of _ c])
         (simp add: prod_eq_iff)
  next
    case False
    have "r = r\<lparr>signal_counter := signal_counter r\<rparr>" by simp
    then show ?thesis unfolding Pair using False emits_refl [of ps w]
      by (intro exI [of _ w] exI [of _ "signal_counter r"]) simp
  qed
qed


text \<open>
  The three single-symbol rules are present after \<^verbatim>\<open>ensure_rules_exist\<close>, so
  \<^verbatim>\<open>process_single_symbol_signals\<close> dereferences no null pointer; the events it emits
  are not correlation breaks.
\<close>

lemma single_symbol_ok:
  assumes "zscore_rules r (tick_symbol tick) \<noteq> None"
    and "volume_rules r (tick_symbol tick) \<noteq> None"
    and "mean_reversion_rules r (tick_symbol tick) \<noteq> None"
  shows "\<exists>w' r'. process_single_symbol_signals w r tick = Some (w', r') \<and> emits ps w w' \<and>
           watched_pairs r' = watched_pairs r \<and> correlation_rules r' = correlation_rules r \<and>
           latest_ticks r' = latest_ticks r"
proof -
  define s where "s = tick_symbol tick"
  from assms obtain zr vr mr where z: "zscore_rules r s = Some zr"
    and v: "volume_rules r s = Some vr" and m: "mean_reversion_rules r s = Some mr"
    unfolding s_def by blast
  define r1 where "r1 = r\<lparr>zscore_rules := (zscore_rules r)(s \<mapsto>
      ZScoreRule_add_observation zr (tick_last_price tick))\<rparr>"
  have ne: "Z_SCORE_BREAK \<noteq> CORRELATION_BREAK" "VOLUME_SPIKE \<noteq> CORRELATION_BREAK"
    "PAIR_TRADE_ENTRY \<noteq> CORRELATION_BREAK" by simp_all
  from fire_emits [where type = Z_SCORE_BREAK and primary = s and secondary = "[]" and ps = ps
      and res = "ZScoreRule_evaluate (ZScoreRule_add_observation zr (tick_last_price tick))"
      and w = w and r = r1 and conf = "0.95"] ne
  obtain w1 c1 where e1: "(case ZScoreRule_evaluate (ZScoreRule_add_observation zr (tick_last_price tick)) of
        (fires, strength) \<Rightarrow>
          if fires then emit_signal w r1 Z_SCORE_BREAK s [] strength 0.95 else (w, r1)) =
        (w1, r1\<lparr>signal_counter := c1\<rparr>)" and em1: "emits ps w w1" by blast
  define r2 where "r2 = r1\<lparr>signal_counter := c1\<rparr>"
  have v2: "volume_rules r2 s = Some vr" by (simp add: r2_def r1_def v)
  define r3 where "r3 = r2\<lparr>volume_rules := (volume_rules r2)(s \<mapsto>
      VolumeRule_add_volume vr (tick_last_size tick))\<rparr>"
  from fire_emits [where type = VOLUME_SPIKE and primary = s and secondary = "[]" and ps = ps
      and res = "VolumeRule_evaluate (VolumeRule_add_volume vr (tick_last_size tick))"
      and w = w1 and r = r3 and conf = "0.90"] ne
  obtain w2 c2 where e2: "(case VolumeRule_evaluate (VolumeRule_add_volume vr (tick_last_size tick)) of
        (fires, strength) \<Rightarrow>
          if fires then emit_signal w1 r3 VOLUME_SPIKE s [] strength 0.90 else (w1, r3)) =
        (w2, r3\<lparr>signal_counter := c2\<rparr>)" and em2: "emits ps w1 w2" by blast
  define r4 where "r4 = r3\<lparr>signal_counter := c2\<rparr>"
  have m4: "mean_reversion_rules r4 s = Some mr" by (simp add: r4_def r3_def r2_def r1_def m)
  define r5 where "r5 = r4\<lparr>mean_reversion_rules := (mean_reversion_rules r4)(s \<mapsto>
      MeanReversionRule_add_observation mr (tick_last_price tick))\<rparr>"
  from fire_emits [where type = PAIR_TRADE_ENTRY and primary = s and secondary = "[]" and ps = ps
      and res = "MeanReversionRule_evaluate (MeanReversionRule_add_observation mr (tick_last_price tick))"
      and w = w2 and r = r5 and conf = "0.85"] ne
  obtain w3 c3 where e3: "(case MeanReversionRule_evaluate
          (MeanReversionRule_add_observation mr (tick_last_price tick)) of
        (fires, strength) \<Rightarrow>
          if fires then emit_signal w2 r5 PAIR_TRADE_ENTRY s [] strength 0.85 else (w2, r5)) =
        (w3, r5\<lparr>signal_counter := c3\<rparr>)" and em3: "emits ps w2 w3" by blast
  have "process_single_symbol_signals w r tick = Some (w3, r5\<lparr>signal_counter := c3\<rparr>)"
    unfolding process_single_symbol_signals_def Let_def s_def [symmetric]
    by (simp only: z option.case r1_def [symmetric] e1 prod.case r2_def [symmetric] v2
        r3_def [symmetric] e2 r4_def [symmetric] m4 r5_def [symmetric] e3)
  moreover have "emits ps w w3" using em1 em2 em3 by (blast intro: emits_trans)
  moreover have "watched_pairs (r5\<lparr>signal_counter := c3\<rparr>) = watched_pairs r"
    "correlation_rules (r5\<lparr>signal_counter := c3\<rparr>) = correlation_rules r"
    "latest_ticks (r5\<lparr>signal_counter := c3\<rparr>) = latest_ticks r"
    by (simp_all add: r5_def r4_def r3_def r2_def r1_def)
  ultimately show ?thesis by blast
qed


text \<open>
  The cross-symbol loop emits \<^verbatim>\<open>CORRELATION_BREAK\<close> with the two symbols of the stored
  pair, in the stored order.
\<close>

lemma cross_symbol_ok:
  assumes "set qs \<subseteq> set ps"
  shows "\<forall>(a, b)\<in>set qs. correlation_rules r (make_pair_key a b) \<noteq> None \<Longrightarrow>
         \<exists>w' r'. cross_symbol_loop w r cur qs = Some (w', r') \<and> emits ps w w' \<and>
           watched_pairs r' = watched_pairs r \<and>
           dom (correlation_rules r') = dom (correlation_rules r)"
  using assms
proof (induction qs arbitrary: w r)
  case Nil
  then show ?case by (simp add: emits_refl)
next
  case (Cons q qs)
  obtain a b where q: "q = (a, b)" by (cases q)
  from Cons.prems(2) have sub: "set qs \<subseteq> set ps" and mem: "(a, b) \<in> set ps" by (simp_all add: q)
  from Cons.prems(1) have rest: "\<forall>(a, b)\<in>set qs. correlation_rules r (make_pair_key a b) \<noteq> None"
    by simp
  show ?case
  proof (cases "(a \<noteq> cur \<and> b \<noteq> cur) \<or> latest_ticks r a = None \<or> latest_ticks r b = None")
    case True
    then have "cross_symbol_loop w r cur (q # qs) = cross_symbol_loop w r cur qs"
      unfolding q by (auto split: option.splits)
    with Cons.IH [OF rest sub, of w] show ?thesis by simp
  next
    case False
    then obtain t1 t2 where t: "latest_ticks r a = Some t1" "latest_ticks r b = Some t2"
      and cur: "\<not> (a \<noteq> cur \<and> b \<noteq> cur)" by auto
    from Cons.prems(1) obtain cr where cr: "correlation_rules r (make_pair_key a b) = Some cr"
      by (auto simp: q)
    define cr' where "cr' = CorrelationBreakRule_add_pair cr (tick_last_price t1) (tick_last_price t2)"
    define r1 where "r1 = r\<lparr>correlation_rules := (correlation_rules r)(make_pair_key a b \<mapsto> cr')\<rparr>"
    from fire_emits [where type = CORRELATION_BREAK and primary = a and secondary = b and ps = ps
        and res = "CorrelationBreakRule_evaluate cr'" and w = w and r = r1 and conf = "0.88"] mem
    obtain w1 c1 where e1: "(case CorrelationBreakRule_evaluate cr' of
          (fires, strength) \<Rightarrow>
            if fires then emit_signal w r1 CORRELATION_BREAK a b strength 0.88 else (w, r1)) =
          (w1, r1\<lparr>signal_counter := c1\<rparr>)" and em1: "emits ps w w1" by blast
    define r2 where "r2 = r1\<lparr>signal_counter := c1\<rparr>"
    have step: "cross_symbol_loop w r cur (q # qs) = cross_symbol_loop w1 r2 cur qs"
      unfolding q cross_symbol_loop.simps Let_def
      using cur
      by (simp only: t cr option.case prod.case cr'_def [symmetric] r1_def [symmetric] e1
          r2_def [symmetric] if_False)
    have dom2: "dom (correlation_rules r2) = dom (correlation_rules r)"
      using cr by (auto simp: r2_def r1_def)
    have wp2: "watched_pairs r2 = watched_pairs r" by (simp add: r2_def r1_def)
    have "\<forall>(a, b)\<in>set qs. correlation_rules r2 (make_pair_key a b) \<noteq> None"
      using rest dom2 by (auto simp: dom_def)
    from Cons.IH [OF this sub, of w1]
    obtain w' r' where "cross_symbol_loop w1 r2 cur qs = Some (w', r')" "emits ps w1 w'"
      "watched_pairs r' = watched_pairs r2" "dom (correlation_rules r') = dom (correlation_rules r2)"
      by blast
    then show ?thesis using step em1 dom2 wp2 by (auto intro: emits_trans)
  qed
qed

lemma ensure_rules_exist_ok:
  "zscore_rules (ensure_rules_exist r s) s \<noteq> None \<and>
   volume_rules (ensure_rules_exist r s) s \<noteq> None \<and>
   mean_reversion_rules (ensure_rules_exist r s) s \<noteq> None \<and>
   watched_pairs (ensure_rules_exist r s) = watched_pairs r \<and>
   correlation_rules (ensure_rules_exist r s) = correlation_rules r \<and>
   latest_ticks (ensure_rules_exist r s) = latest_ticks r"
  by (simp add: ensure_rules_exist_def Let_def)


lemma process_tick_ok:
  assumes "pairs_have_rules r"
  shows "\<exists>w' r' new. process_tick w r tick = Some (w', r') \<and>
           w_delivered w' = w_delivered w @ new \<and>
           (\<forall>e\<in>set new.
              (event_type e = CORRELATION_BREAK \<longrightarrow>
                 (primary_symbol e, secondary_symbol e) \<in> set (watched_pairs r)) \<and>
              (\<exists>k\<ge>1. event_time e = w_clock w k \<and> generation_time e = w_clock w (Suc k))) \<and>
           watched_pairs r' = watched_pairs r \<and> pairs_have_rules r'"
proof -
  define s where "s = tick_symbol tick"
  define ps where "ps = watched_pairs r"
  define w1 where "w1 = w\<lparr>w_clock := \<lambda>n. w_clock w (Suc n)\<rparr>"
  define r2 where "r2 = ensure_rules_exist (r\<lparr>latest_ticks := (latest_ticks r)(s \<mapsto> tick)\<rparr>) s"
  from ensure_rules_exist_ok [of "r\<lparr>latest_ticks := (latest_ticks r)(s \<mapsto> tick)\<rparr>" s]
  have r2: "zscore_rules r2 s \<noteq> None" "volume_rules r2 s \<noteq> None" "mean_reversion_rules r2 s \<noteq> None"
    "watched_pairs r2 = ps" "correlation_rules r2 = correlation_rules r"
    by (simp_all add: r2_def ps_def)
  from single_symbol_ok [of r2 tick w1 ps] r2(1-3)
  obtain w2 r3 where single: "process_single_symbol_signals w1 r2 tick = Some (w2, r3)"
    and em2: "emits ps w1 w2" and r3: "watched_pairs r3 = ps" "correlation_rules r3 = correlation_rules r"
    unfolding s_def using r2(4,5) by auto
  have "\<forall>(a, b)\<in>set ps. correlation_rules r3 (make_pair_key a b) \<noteq> None"
    using assms unfolding pairs_have_rules_def ps_def r3(2) by simp
  from cross_symbol_ok [OF subset_refl this, of w2 s]
  obtain w3 r4 where cross: "cross_symbol_loop w2 r3 s ps = Some (w3, r4)"
    and em3: "emits ps w2 w3" and r4: "watched_pairs r4 = ps"
    "dom (correlation_rules r4) = dom (correlation_rules r)"
    using r3 by auto
  obtain clk2 h where samp: "LatencyHistogram_add_sample (w_clock w3) (latency_hist r4)
      (tick_timestamp tick) (w_clock w 0) = (clk2, h)" by force
  define w' where "w' = w3\<lparr>w_clock := clk2\<rparr>"
  define r' where "r' = r4\<lparr>latency_hist := h, ticks_processed := ticks_processed r4 + 1\<rparr>"
  have res: "process_tick w r tick = Some (w', r')"
    unfolding process_tick_def steady_clock_now_def Let_def prod.case s_def [symmetric]
      r2_def [symmetric] w1_def [symmetric]
    by (simp add: single process_cross_symbol_signals_def s_def [symmetric] r3(1) cross samp
        w'_def r'_def)
  from emits_trans [OF em2 em3] obtain j new where
    d: "w_delivered w3 = w_delivered w1 @ new"
    and ev: "\<forall>e\<in>set new.
       (event_type e = CORRELATION_BREAK \<longrightarrow> (primary_symbol e, secondary_symbol e) \<in> set ps) \<and>
       (\<exists>k. event_time e = w_clock w1 k \<and> generation_time e = w_clock w1 (Suc k))"
    unfolding emits_def by blast
  have d': "w_delivered w' = w_delivered w @ new" using d by (simp add: w'_def w1_def)
  have ev': "(event_type e = CORRELATION_BREAK \<longrightarrow> (primary_symbol e, secondary_symbol e) \<in> set ps) \<and>
       (\<exists>k\<ge>1. event_time e = w_clock w k \<and> generation_time e = w_clock w (Suc k))"
    if "e \<in> set new" for e
  proof -
    from ev that obtain k where k: "event_time e = w_clock w1 k" "generation_time e = w_clock w1 (Suc k)"
      and c: "event_type e = CORRELATION_BREAK \<longrightarrow> (primary_symbol e, secondary_symbol e) \<in> set ps"
      by blast
    from k have "event_time e = w_clock w (Suc k) \<and> generation_time e = w_clock w (Suc (Suc k))"
      by (simp add: w1_def)
    then have "\<exists>k\<ge>1. event_time e = w_clock w k \<and> generation_time e = w_clock w (Suc k)"
      by (intro exI [of _ "Suc k"]) simp
    with c show ?thesis by blast
  qed
  have wp: "watched_pairs r' = watched_pairs r" using r4(1) by (simp add: r'_def ps_def)
  have "pairs_have_rules r'"
    using assms r4 unfolding pairs_have_rules_def r'_def ps_def by (auto simp: dom_def)
  with res d' ev' wp show ?thesis unfolding ps_def by blast
qed


text \<open>Evaluating the scenario: 49 quiet ticks of A, then the tick that fires.\<close>

lemma LatencyHistogram_new_eq:
  "LatencyHistogram_new =
     \<lparr>lh_buckets = [0, 0, 0, 0, 0, 0, 0, 0, 0, 0], lh_total_samples = 0,
      lh_total_latency_us = 0, lh_min_latency_us = - 1, lh_max_latency_us = 0,
      lh_start_time = 0, lh_timing_started = False\<rparr>"
  by (simp add: LatencyHistogram_new_def LatencyHistogram_reset_def NUM_BUCKETS_def UINT64_MAX_def
      numeral_eq_Suc)

lemmas router_eval =
  World_new_def Router_new_def set_signal_callback_def add_watched_pair_def make_pair_key_def
  process_tick_def ensure_rules_exist_def process_single_symbol_signals_def
  process_cross_symbol_signals_def emit_signal_def SignalEvent_new_def steady_clock_now_def
  ZScoreRule_new_def ZScoreRule_add_observation_def ZScoreRule_evaluate_def
  VolumeRule_new_def VolumeRule_add_volume_def VolumeRule_evaluate_def
  MeanReversionRule_new_def MeanReversionRule_add_observation_def MeanReversionRule_evaluate_def
  CorrelationBreakRule_new_def CorrelationBreakRule_add_pair_def CorrelationBreakRule_evaluate_def
  RollingStats_new_def RollingStats_add_def RollingStats_count_def RollingStats_z_score_def
  RollingStats_std_dev_def RollingStats_variance_def
  EMAStats_of_window_def EMAStats_add_def EMAStats_mean_def EMAStats_std_dev_def
  EMAStats_is_initialized_def
  RollingCovar_new_def RollingCovar_add_def RollingCovar_count_def RollingCovar_correlation_def
  RollingCovar_covariance_def RollingCovar_variance_x_def RollingCovar_variance_y_def
  LatencyHistogram_add_sample_def LatencyHistogram_add_sample_us_def LatencyHistogram_new_eq
  duration_cast_microseconds_def NUM_BUCKETS_def BUCKET_EDGES_def
  to_double_def Let_def find_bucket.simps

lemma scenario_run_49:
  "run_router (World_new scenario_clock) Router_new (scenario_calls 49) =
     Some (scenario_world, scenario_router)"
  by (simp add: scenario_calls_def tick_A_def tick_B_def scenario_clock_def scenario_world_def
      scenario_router_def router_eval upt_rec)

lemma scenario_tick_50:
  "map_option (\<lambda>(w, r). w_delivered w) (process_tick scenario_world scenario_router (tick_A 50)) =
     Some [scenario_event]"
  by (simp add: tick_A_def scenario_world_def scenario_router_def scenario_event_def router_eval)


text \<open>Every call sequence on a fresh router runs without a null dereference.\<close>

lemma router_step_ok:
  assumes "pairs_have_rules r"
  shows "\<exists>w' r' new. router_step w r c = Some (w', r') \<and>
           w_delivered w' = w_delivered w @ new \<and>
           (\<forall>e\<in>set new. event_type e = CORRELATION_BREAK \<longrightarrow>
              (primary_symbol e, secondary_symbol e) \<in> set (watched_pairs r)) \<and>
           watched_pairs r' = watched_pairs r @ registered_pairs [c] \<and> pairs_have_rules r'"
proof (cases c)
  case (Process_tick tick)
  from process_tick_ok [OF assms, of w tick] show ?thesis
    unfolding Process_tick by (simp del: One_nat_def) blast
next
  case (Add_watched_pair s1 s2)
  have "pairs_have_rules (add_watched_pair r s1 s2)"
    using assms unfolding pairs_have_rules_def add_watched_pair_def Let_def by auto
  then show ?thesis unfolding Add_watched_pair
    by (intro exI [of _ w] exI [of _ "add_watched_pair r s1 s2"] exI [of _ "[]"])
       (simp add: add_watched_pair_def Let_def)
next
  case Reset_stats
  have "pairs_have_rules (reset_stats r)"
    using assms unfolding pairs_have_rules_def reset_stats_def by auto
  then show ?thesis unfolding Reset_stats
    by (intro exI [of _ w] exI [of _ "reset_stats r"] exI [of _ "[]"])
       (simp add: reset_stats_def)
next
  case (Set_zscore_threshold x)
  show ?thesis unfolding Set_zscore_threshold using assms
    by (intro exI [of _ w] exI [of _ "set_zscore_threshold r x"] exI [of _ "[]"])
       (simp add: set_zscore_threshold_def pairs_have_rules_def)
next
  case (Set_correlation_threshold x)
  show ?thesis unfolding Set_correlation_threshold using assms
    by (intro exI [of _ w] exI [of _ "set_correlation_threshold r x"] exI [of _ "[]"])
       (simp add: set_correlation_threshold_def pairs_have_rules_def)
next
  case (Set_volume_threshold x)
  show ?thesis unfolding Set_volume_threshold using assms
    by (intro exI [of _ w] exI [of _ "set_volume_threshold r x"] exI [of _ "[]"])
       (simp add: set_volume_threshold_def pairs_have_rules_def)
next
  case (Set_signal_callback cb)
  show ?thesis unfolding Set_signal_callback using assms
    by (intro exI [of _ w] exI [of _ "set_signal_callback r cb"] exI [of _ "[]"])
       (simp add: set_signal_callback_def pairs_have_rules_def)
qed

lemma registered_pairs_Cons:
  "registered_pairs (c # cs) = registered_pairs [c] @ registered_pairs cs"
  by (cases c) simp_all

lemma run_router_ok:
  "pairs_have_rules r \<Longrightarrow>
   \<exists>w' r' new. run_router w r cs = Some (w', r') \<and>
     w_delivered w' = w_delivered w @ new \<and>
     (\<forall>e\<in>set new. event_type e = CORRELATION_BREAK \<longrightarrow>
        (primary_symbol e, secondary_symbol e) \<in> set (watched_pairs r'))  \<and>
     watched_pairs r' = watched_pairs r @ registered_pairs cs \<and> pairs_have_rules r'"
proof (induction cs arbitrary: w r)
  case Nil
  then show ?case by simp
next
  case (Cons c cs)
  from router_step_ok [OF Cons.prems, of w c]
  obtain w1 r1 new1 where s1: "router_step w r c = Some (w1, r1)"
    and d1: "w_delivered w1 = w_delivered w @ new1"
    and e1: "\<forall>e\<in>set new1. event_type e = CORRELATION_BREAK \<longrightarrow>
              (primary_symbol e, secondary_symbol e) \<in> set (watched_pairs r)"
    and p1: "watched_pairs r1 = watched_pairs r @ registered_pairs [c]"
    and i1: "pairs_have_rules r1" by blast
  from Cons.IH [OF i1, of w1]
  obtain w2 r2 new2 where s2: "run_router w1 r1 cs = Some (w2, r2)"
    and d2: "w_delivered w2 = w_delivered w1 @ new2"
    and e2: "\<forall>e\<in>set new2. event_type e = CORRELATION_BREAK \<longrightarrow>
              (primary_symbol e, secondary_symbol e) \<in> set (watched_pairs r2)"
    and p2: "watched_pairs r2 = watched_pairs r1 @ registered_pairs cs"
    and i2: "pairs_have_rules r2" by blast
  have run: "run_router w r (c # cs) = Some (w2, r2)" using s1 s2 by simp
  have d: "w_delivered w2 = w_delivered w @ (new1 @ new2)" using d1 d2 by simp
  have p: "watched_pairs r2 = watched_pairs r @ registered_pairs (c # cs)"
    using p1 p2 registered_pairs_Cons [of c cs] by simp
  have "\<forall>e\<in>set (new1 @ new2). event_type e = CORRELATION_BREAK \<longrightarrow>
          (primary_symbol e, secondary_symbol e) \<in> set (watched_pairs r2)"
    using e1 e2 p by auto
  with run d p i2 show ?case by blast
qed

lemma pairs_have_rules_new: "pairs_have_rules Router_new"
  by (simp add: pairs_have_rules_def Router_new_def)

text \<open>
  Claim C6, amended.  For every sequence of calls on a fresh router, every
  \<^verbatim>\<open>CORRELATION_BREAK\<close> event delivered to the callback carries as \<open>primary_symbol\<close> the
  first argument and as \<open>secondary_symbol\<close> the second argument of one of the
  \<^verbatim>\<open>add_watched_pair\<close> calls: the symbols are in registration order.
\<close>

theorem correlation_break_symbols:
  "\<exists>w' r'. run_router (World_new clk) Router_new calls = Some (w', r') \<and>
     (\<forall>e\<in>set (w_delivered w').
        event_type e = CORRELATION_BREAK \<longrightarrow>
        (primary_symbol e, secondary_symbol e) \<in> set (registered_pairs calls))"
proof -
  from run_router_ok [OF pairs_have_rules_new, of "World_new clk" calls]
  obtain w' r' new where "run_router (World_new clk) Router_new calls = Some (w', r')"
    "w_delivered w' = w_delivered (World_new clk) @ new"
    "\<forall>e\<in>set new. event_type e = CORRELATION_BREAK \<longrightarrow>
        (primary_symbol e, secondary_symbol e) \<in> set (watched_pairs r')"
    "watched_pairs r' = watched_pairs Router_new @ registered_pairs calls" by blast
  then show ?thesis by (simp add: World_new_def Router_new_def)
qed

text \<open>
  Claim C7, amended.  In every state that a call sequence on a fresh router reaches,
  \<^verbatim>\<open>process_tick(tick)\<close> returns, and each event it delivers has as \<open>event_time\<close> a clock
  reading taken during this call, after the reading of \<^verbatim>\<open>start_time\<close> (reading 0 of the
  call), and as \<open>generation_time\<close> the next reading.  \<open>tick_timestamp tick\<close> plays no part.
\<close>

theorem event_time_is_emission_clock:
  "\<exists>w r w' r' new.
     run_router (World_new clk) Router_new calls = Some (w, r) \<and>
     process_tick w r tick = Some (w', r') \<and>
     w_delivered w' = w_delivered w @ new \<and>
     (\<forall>e\<in>set new. \<exists>k\<ge>1. event_time e = w_clock w k \<and> generation_time e = w_clock w (Suc k))"
proof -
  from run_router_ok [OF pairs_have_rules_new, of "World_new clk" calls]
  obtain w r where run: "run_router (World_new clk) Router_new calls = Some (w, r)"
    and inv: "pairs_have_rules r" by blast
  from process_tick_ok [OF inv, of w tick] run show ?thesis by blast
qed

lemma run_router_append:
  "run_router w r (cs @ ds) =
     (case run_router w r cs of None \<Rightarrow> None | Some (w', r') \<Rightarrow> run_router w' r' ds)"
  by (induction cs arbitrary: w r) (auto split: option.splits)

lemma scenario_calls_Suc:
  "scenario_calls (Suc n) = scenario_calls n @ [Process_tick (tick_A (Suc n))]"
  by (simp add: scenario_calls_def)

lemma scenario_calls_50:
  "scenario_calls 50 = scenario_calls 49 @ [Process_tick (tick_A 50)]"
  using scenario_calls_Suc [of 49] by simp

lemma scenario_symbols: "(''A'' :: string) < ''B''"
  by simp

text \<open>
  Claim C6 as stated fails.  In the scenario the pair is registered as ("B", "A"); the 50th
  tick of A makes the router deliver exactly one event, a correlation break whose
  \<open>primary_symbol\<close> is "B" and whose \<open>secondary_symbol\<close> is "A", the smaller symbol.
\<close>

theorem correlation_break_order_counterexample:
  "map_option (\<lambda>(w, r). w_delivered w)
     (run_router (World_new scenario_clock) Router_new (scenario_calls 50)) = Some [scenario_event] \<and>
   event_type scenario_event = CORRELATION_BREAK \<and>
   secondary_symbol scenario_event < primary_symbol scenario_event"
proof -
  have "run_router (World_new scenario_clock) Router_new (scenario_calls 50) =
      process_tick scenario_world scenario_router (tick_A 50)"
    unfolding scenario_calls_50 run_router_append scenario_run_49
    by (simp split: option.splits)
  then show ?thesis using scenario_tick_50
    by (simp add: scenario_event_def)
qed

text \<open>
  Claim C7 as stated fails.  In the scenario the 50th tick of A has timestamp 50, and the
  event delivered while it is processed has \<open>event_time\<close> 1000052, the clock reading taken
  by the \<^verbatim>\<open>SignalEvent\<close> constructor.
\<close>

theorem event_time_counterexample:
  "run_router (World_new scenario_clock) Router_new (scenario_calls 49) =
     Some (scenario_world, scenario_router) \<and>
   map_option (\<lambda>(w, r). w_delivered w) (process_tick scenario_world scenario_router (tick_A 50)) =
     Some (w_delivered scenario_world @ [scenario_event]) \<and>
   event_time scenario_event \<noteq> tick_timestamp (tick_A 50)"
  using scenario_run_49 scenario_tick_50
  by (simp add: scenario_world_def scenario_event_def tick_A_def)

text \<open>The two amended claims at the scenario.\<close>

theorem correlation_break_symbols_witness:
  "scenario_event \<in> set (w_delivered (fst (the (run_router (World_new scenario_clock) Router_new
       (scenario_calls 50))))) \<and>
   event_type scenario_event = CORRELATION_BREAK \<and>
   (primary_symbol scenario_event, secondary_symbol scenario_event) \<in>
     set (registered_pairs (scenario_calls 50)) \<and>
   registered_pairs (scenario_calls 50) = [(''B'', ''A'')]"
proof -
  have run: "run_router (World_new scenario_clock) Router_new (scenario_calls 50) =
      process_tick scenario_world scenario_router (tick_A 50)"
    unfolding scenario_calls_50 run_router_append scenario_run_49
    by (simp split: option.splits)
  from correlation_break_symbols [of scenario_clock "scenario_calls 50"]
  obtain w' r' where r: "run_router (World_new scenario_clock) Router_new (scenario_calls 50) = Some (w', r')"
    and all: "\<forall>e\<in>set (w_delivered w'). event_type e = CORRELATION_BREAK \<longrightarrow>
        (primary_symbol e, secondary_symbol e) \<in> set (registered_pairs (scenario_calls 50))"
    by blast
  from r run scenario_tick_50 have d: "w_delivered w' = [scenario_event]" by simp
  have t: "event_type scenario_event = CORRELATION_BREAK" by (simp add: scenario_event_def)
  from all d t have "(primary_symbol scenario_event, secondary_symbol scenario_event) \<in>
      set (registered_pairs (scenario_calls 50))" by simp
  moreover have "registered_pairs (scenario_calls 50) = [(''B'', ''A'')]"
  proof -
    have "registered_pairs (map (\<lambda>k. Process_tick (tick_A k)) ks) = []" for ks
      by (induction ks) simp_all
    then have "registered_pairs ([Process_tick tick_B] @ map (\<lambda>k. Process_tick (tick_A k)) ks) = []" for ks
      by simp
    then show ?thesis by (simp add: scenario_calls_def del: upt_Suc)
  qed
  ultimately show ?thesis using r d t by simp
qed

theorem event_time_is_emission_clock_witness:
  "run_router (World_new scenario_clock) Router_new (scenario_calls 49) =
     Some (scenario_world, scenario_router) \<and>
   map_option (\<lambda>(w, r). w_delivered w) (process_tick scenario_world scenario_router (tick_A 50)) =
     Some (w_delivered scenario_world @ [scenario_event]) \<and>
   (\<exists>k\<ge>1. event_time scenario_event = w_clock scenario_world k \<and>
           generation_time scenario_event = w_clock scenario_world (Suc k))"
proof -
  from event_time_is_emission_clock [of scenario_clock "scenario_calls 49" "tick_A 50"]
  obtain w r w' r' new where run: "run_router (World_new scenario_clock) Router_new (scenario_calls 49) = Some (w, r)"
    and tick: "process_tick w r (tick_A 50) = Some (w', r')"
    and d: "w_delivered w' = w_delivered w @ new"
    and all: "\<forall>e\<in>set new. \<exists>k\<ge>1. event_time e = w_clock w k \<and> generation_time e = w_clock w (Suc k)"
    by blast
  from run scenario_run_49 have w: "w = scenario_world" "r = scenario_router" by simp_all
  from tick scenario_tick_50 have "w_delivered w' = [scenario_event]" unfolding w by simp
  with d have "new = [scenario_event]" unfolding w by (simp add: scenario_world_def)
  with all have "\<exists>k\<ge>1. event_time scenario_event = w_clock scenario_world k \<and>
           generation_time scenario_event = w_clock scenario_world (Suc k)"
    unfolding w by simp
  then show ?thesis using scenario_run_49 scenario_tick_50 by (simp add: scenario_world_def)
qed

end
